theory Spec2Isabelle
  imports Complex_Main "HOL-Library.Word"
begin

unbundle bit_operations_syntax

section \<open>Machine arithmetic and addresses\<close>

text \<open>
  The map of \<^verbatim>\<open>cc4.h\<close> is modelled on a platform with a 64-bit \<^verbatim>\<open>size_t\<close> and a
  32-bit \<^verbatim>\<open>unsigned int\<close> (the type behind \<^verbatim>\<open>cc4_probelen_ty\<close>). Values of both types
  are natural numbers, and every operation of the source that can leave the range of its
  type has the wrap-around written out through \<open>size_t\<close> and \<open>probelen_ty\<close>.
  Pointers are byte addresses; the null pointer is address \<open>0\<close>.
\<close>

type_synonym addr = nat

definition size_t :: "nat \<Rightarrow> nat" where
  "size_t x = x mod 2 ^ 64"

definition probelen_ty :: "nat \<Rightarrow> nat" where
  "probelen_ty x = x mod 2 ^ 32"

text \<open>\<^verbatim>\<open>a - 1\<close> on \<^verbatim>\<open>size_t\<close>: \<open>0 - 1\<close> is \<^verbatim>\<open>SIZE_MAX\<close>.\<close>

definition size_t_dec :: "nat \<Rightarrow> nat" where
  "size_t_dec a = size_t (a + (2 ^ 64 - 1))"

text \<open>\<^verbatim>\<open>hash( key ) & ( cap - 1 )\<close> and \<^verbatim>\<open>( i + 1 ) & ( cap - 1 )\<close>.\<close>

definition home_bucket :: "nat \<Rightarrow> nat \<Rightarrow> nat" where
  "home_bucket cap h = size_t h AND size_t_dec cap"

definition next_bucket :: "nat \<Rightarrow> nat \<Rightarrow> nat" where
  "next_bucket cap i = size_t (i + 1) AND size_t_dec cap"

definition sizeof_probelen :: nat where
  "sizeof_probelen = 4"

text \<open>
  \<^verbatim>\<open>cc4_map_hdr_ty\<close> holds two \<^verbatim>\<open>size_t\<close> fields and is aligned to \<^verbatim>\<open>max_align_t\<close>.
\<close>

definition sizeof_map_hdr :: nat where
  "sizeof_map_hdr = 16"

section \<open>Bucket layout\<close>

text \<open>
  The layout descriptor is a \<^verbatim>\<open>uint64_t\<close>: the key size in its low 32 bits, then one byte
  each for the padding after the element, after the key and after the probe length.
\<close>

definition CC4_KEY_SIZE :: "nat \<Rightarrow> nat" where
  "CC4_KEY_SIZE layout = layout mod 2 ^ 32"

definition CC4_KEY_OFFSET :: "nat \<Rightarrow> nat \<Rightarrow> nat" where
  "CC4_KEY_OFFSET el_size layout = el_size + drop_bit 32 layout mod 2 ^ 8"

definition CC4_PROBELEN_OFFSET :: "nat \<Rightarrow> nat \<Rightarrow> nat" where
  "CC4_PROBELEN_OFFSET el_size layout =
     CC4_KEY_OFFSET el_size layout + layout mod 2 ^ 32 + drop_bit 40 layout mod 2 ^ 8"

definition CC4_BUCKET_SIZE :: "nat \<Rightarrow> nat \<Rightarrow> nat" where
  "CC4_BUCKET_SIZE el_size layout =
     CC4_PROBELEN_OFFSET el_size layout + sizeof_probelen + drop_bit 48 layout mod 2 ^ 8"

section \<open>The table\<close>

text \<open>
  A bucket holds an element, a key and a probe length (\<open>0\<close>: empty; \<open>p > 0\<close>: the entry
  sits \<open>p - 1\<close> buckets after its home bucket). Keys and elements are values of two
  arbitrary types; their bytes are not interpreted by the map.
\<close>

record ('k, 'v) bucket =
  bkt_el :: 'v
  bkt_key :: 'k
  bkt_probelen :: nat

text \<open>
  A container handle points to a block that starts with the header (\<open>size\<close>, \<open>cap\<close>)
  and continues with \<open>cap\<close> buckets. The model keeps the handle (\<open>hndl\<close>) together with
  what the block holds.
\<close>

record ('k, 'v) cc4_map =
  hndl :: addr
  hdr_size :: nat
  hdr_cap :: nat
  buckets :: "('k, 'v) bucket list"

text \<open>
  The placeholder is one static object; its address and that of \<^verbatim>\<open>cc4_dummy_true\<close> are
  fixed by the linker. Nothing below depends on their values beyond their being
  different from \<open>0\<close>.
\<close>

definition cc4_map_placeholder_addr :: addr where
  "cc4_map_placeholder_addr = 4096"

definition cc4_dummy_true_ptr :: addr where
  "cc4_dummy_true_ptr = 4112"

definition cc4_map_placeholder :: "('k, 'v) cc4_map" where
  "cc4_map_placeholder =
     \<lparr>hndl = cc4_map_placeholder_addr, hdr_size = 0, hdr_cap = 0, buckets = []\<rparr>"

definition cc4_map_size :: "('k, 'v) cc4_map \<Rightarrow> nat" where
  "cc4_map_size cntr = hdr_size cntr"

definition cc4_map_cap :: "('k, 'v) cc4_map \<Rightarrow> nat" where
  "cc4_map_cap cntr = hdr_cap cntr"

definition cc4_map_is_placeholder :: "('k, 'v) cc4_map \<Rightarrow> bool" where
  "cc4_map_is_placeholder cntr = (cc4_map_cap cntr = 0)"

definition cc4_map_el :: "addr \<Rightarrow> nat \<Rightarrow> nat \<Rightarrow> nat \<Rightarrow> addr" where
  "cc4_map_el cntr i el_size layout =
     cntr + sizeof_map_hdr + CC4_BUCKET_SIZE el_size layout * i"

definition cc4_map_key :: "addr \<Rightarrow> nat \<Rightarrow> nat \<Rightarrow> nat \<Rightarrow> addr" where
  "cc4_map_key cntr i el_size layout =
     cc4_map_el cntr i el_size layout + CC4_KEY_OFFSET el_size layout"

section \<open>Effects\<close>

text \<open>
  Destructors, \<^verbatim>\<open>free_\<close> and \<^verbatim>\<open>realloc_\<close> are function pointers. A call of one of them
  is an event of the trace that each operation returns, in the order of the calls. A
  destructor pointer is \<open>None\<close> (null) or \<open>Some d\<close>; it is called with the address of the
  key or element it is to destroy.

  \<^verbatim>\<open>realloc_( NULL, n )\<close> answers \<open>None\<close> (null) or a block: its address and the
  indeterminate contents of its buckets.
\<close>

datatype 'd event = Dtor 'd addr | Free addr | Realloc nat

type_synonym ('k, 'v) realloc_fn = "nat \<Rightarrow> (addr \<times> (nat \<Rightarrow> ('k, 'v) bucket)) option"

definition call_dtor :: "'d option \<Rightarrow> addr \<Rightarrow> 'd event list" where
  "call_dtor dtor p = (case dtor of None \<Rightarrow> [] | Some d \<Rightarrow> [Dtor d p])"

record ('k, 'v) cc4_allocing_fn_result_ty =
  new_cntr :: "('k, 'v) cc4_map"
  other_ptr :: addr

definition cc4_make_allocing_fn_result ::
  "('k, 'v) cc4_map \<Rightarrow> addr \<Rightarrow> ('k, 'v) cc4_allocing_fn_result_ty" where
  "cc4_make_allocing_fn_result cntr p = \<lparr>new_cntr = cntr, other_ptr = p\<rparr>"

section \<open>Insertion\<close>

text \<open>
  Every loop of the source that has no bound of its own is a partial function: \<open>None\<close>
  is a run that never returns, or that reads a bucket outside the array.

  The inner loop of \<^verbatim>\<open>cc4_map_insert_raw\<close> (and, word for word, of
  \<^verbatim>\<open>cc4_map_insert_raw_unique\<close>): place the carried entry in the first empty bucket,
  swapping it with every resident whose probe length is smaller on the way.
\<close>

partial_function (option) insert_raw_inner ::
  "('k, 'v) cc4_map \<Rightarrow> nat \<Rightarrow> 'v \<Rightarrow> 'k \<Rightarrow> nat \<Rightarrow> ('k, 'v) cc4_map option"
where
  "insert_raw_inner cntr i el key probelen =
     (if i < length (buckets cntr) then
        if bkt_probelen (buckets cntr ! i) = 0 then
          Some (cntr\<lparr>buckets := (buckets cntr)
                  [i := \<lparr>bkt_el = el, bkt_key = key, bkt_probelen = probelen\<rparr>]\<rparr>)
        else if probelen > bkt_probelen (buckets cntr ! i) then
          insert_raw_inner
            (cntr\<lparr>buckets := (buckets cntr)
               [i := \<lparr>bkt_el = el, bkt_key = key, bkt_probelen = probelen\<rparr>]\<rparr>)
            (next_bucket (hdr_cap cntr) i)
            (bkt_el (buckets cntr ! i)) (bkt_key (buckets cntr ! i))
            (probelen_ty (bkt_probelen (buckets cntr ! i) + 1))
        else
          insert_raw_inner cntr (next_bucket (hdr_cap cntr) i) el key
            (probelen_ty (probelen + 1))
      else None)"

partial_function (option) insert_raw_loop ::
  "('k, 'v) cc4_map \<Rightarrow> 'v \<Rightarrow> 'k \<Rightarrow> bool \<Rightarrow> nat \<Rightarrow> nat \<Rightarrow> ('k \<Rightarrow> 'k \<Rightarrow> int) \<Rightarrow>
   'd option \<Rightarrow> 'd option \<Rightarrow> nat \<Rightarrow> nat \<Rightarrow> ('d event list \<times> ('k, 'v) cc4_map \<times> addr) option"
where
  "insert_raw_loop cntr el key replace el_size layout cmpr el_dtor key_dtor i probelen =
     (if i < length (buckets cntr) then
        if probelen > bkt_probelen (buckets cntr ! i) then
          (case insert_raw_inner (cntr\<lparr>hdr_size := size_t (hdr_size cntr + 1)\<rparr>)
                  i el key probelen of
             None \<Rightarrow> None
           | Some cntr' \<Rightarrow> Some ([], cntr', cc4_map_el (hndl cntr) i el_size layout))
        else if probelen = bkt_probelen (buckets cntr ! i) \<and>
                cmpr (bkt_key (buckets cntr ! i)) key = 0 then
          (if replace then
             Some (call_dtor key_dtor (cc4_map_key (hndl cntr) i el_size layout) @
                   call_dtor el_dtor (cc4_map_el (hndl cntr) i el_size layout),
                   cntr\<lparr>buckets := (buckets cntr)
                     [i := (buckets cntr ! i)\<lparr>bkt_key := key, bkt_el := el\<rparr>]\<rparr>,
                   cc4_map_el (hndl cntr) i el_size layout)
           else Some ([], cntr, cc4_map_el (hndl cntr) i el_size layout))
        else
          insert_raw_loop cntr el key replace el_size layout cmpr el_dtor key_dtor
            (next_bucket (hdr_cap cntr) i) (probelen_ty (probelen + 1))
      else None)"

definition cc4_map_insert_raw ::
  "('k, 'v) cc4_map \<Rightarrow> 'v \<Rightarrow> 'k \<Rightarrow> bool \<Rightarrow> nat \<Rightarrow> nat \<Rightarrow> ('k \<Rightarrow> nat) \<Rightarrow> ('k \<Rightarrow> 'k \<Rightarrow> int) \<Rightarrow>
   'd option \<Rightarrow> 'd option \<Rightarrow> ('d event list \<times> ('k, 'v) cc4_map \<times> addr) option"
where
  "cc4_map_insert_raw cntr el key replace el_size layout hash cmpr el_dtor key_dtor =
     insert_raw_loop cntr el key replace el_size layout cmpr el_dtor key_dtor
       (home_bucket (hdr_cap cntr) (hash key)) 1"

partial_function (option) insert_raw_unique_loop ::
  "('k, 'v) cc4_map \<Rightarrow> 'v \<Rightarrow> 'k \<Rightarrow> nat \<Rightarrow> nat \<Rightarrow> nat \<Rightarrow> nat \<Rightarrow> (('k, 'v) cc4_map \<times> addr) option"
where
  "insert_raw_unique_loop cntr el key el_size layout i probelen =
     (if i < length (buckets cntr) then
        if probelen > bkt_probelen (buckets cntr ! i) then
          (case insert_raw_inner (cntr\<lparr>hdr_size := size_t (hdr_size cntr + 1)\<rparr>)
                  i el key probelen of
             None \<Rightarrow> None
           | Some cntr' \<Rightarrow> Some (cntr', cc4_map_el (hndl cntr) i el_size layout))
        else
          insert_raw_unique_loop cntr el key el_size layout
            (next_bucket (hdr_cap cntr) i) (probelen_ty (probelen + 1))
      else None)"

definition cc4_map_insert_raw_unique ::
  "('k, 'v) cc4_map \<Rightarrow> 'v \<Rightarrow> 'k \<Rightarrow> nat \<Rightarrow> nat \<Rightarrow> ('k \<Rightarrow> nat) \<Rightarrow> (('k, 'v) cc4_map \<times> addr) option"
where
  "cc4_map_insert_raw_unique cntr el key el_size layout hash =
     insert_raw_unique_loop cntr el key el_size layout
       (home_bucket (hdr_cap cntr) (hash key)) 1"

section \<open>Capacity and rehashing\<close>

text \<open>
  The maximum load factor is a \<^verbatim>\<open>double\<close>. Its value is taken as the rational it
  denotes, and \<^verbatim>\<open>n > cap * max_load\<close> as the comparison of the exact values: the
  conversions and the product are exact for a power-of-two \<open>cap\<close> and a count below
  \<open>2\<^sup>5\<^sup>3\<close>.
\<close>

partial_function (option) min_cap_loop :: "nat \<Rightarrow> rat \<Rightarrow> nat \<Rightarrow> nat option" where
  "min_cap_loop n max_load cap =
     (if of_nat n > of_nat cap * max_load then min_cap_loop n max_load (size_t (cap * 2))
      else Some cap)"

definition cc4_map_min_cap_for_n_els :: "nat \<Rightarrow> rat \<Rightarrow> nat option" where
  "cc4_map_min_cap_for_n_els n max_load =
     (if n = 0 then Some 0 else min_cap_loop n max_load 8)"

text \<open>The second loop of \<^verbatim>\<open>cc4_map_make_rehash\<close>, over the buckets of the old block.\<close>

fun rehash_loop ::
  "('k, 'v) cc4_map \<Rightarrow> nat \<Rightarrow> nat \<Rightarrow> ('k \<Rightarrow> nat) \<Rightarrow> nat list \<Rightarrow> ('k, 'v) cc4_map \<Rightarrow>
   ('k, 'v) cc4_map option"
where
  "rehash_loop cntr el_size layout hash [] new = Some new"
| "rehash_loop cntr el_size layout hash (i # is) new =
     (if i < length (buckets cntr) then
        if bkt_probelen (buckets cntr ! i) \<noteq> 0 then
          (case cc4_map_insert_raw_unique new
                  (bkt_el (buckets cntr ! i)) (bkt_key (buckets cntr ! i))
                  el_size layout hash of
             None \<Rightarrow> None
           | Some (new', _) \<Rightarrow> rehash_loop cntr el_size layout hash is new')
        else rehash_loop cntr el_size layout hash is new
      else None)"

text \<open>The result is \<open>Some None\<close> for the null pointer of a failed allocation.\<close>

definition cc4_map_make_rehash ::
  "('k, 'v) cc4_map \<Rightarrow> nat \<Rightarrow> nat \<Rightarrow> nat \<Rightarrow> ('k \<Rightarrow> nat) \<Rightarrow> ('k, 'v) realloc_fn \<Rightarrow>
   ('d event list \<times> ('k, 'v) cc4_map option) option"
where
  "cc4_map_make_rehash cntr cap el_size layout hash realloc' =
     (let bytes = size_t (sizeof_map_hdr + CC4_BUCKET_SIZE el_size layout * cap) in
      case realloc' bytes of
        None \<Rightarrow> Some ([Realloc bytes], None)
      | Some (p, junk) \<Rightarrow>
          (case rehash_loop cntr el_size layout hash [0..<hdr_cap cntr]
                  \<lparr>hndl = p, hdr_size = 0, hdr_cap = cap,
                   buckets = map (\<lambda>i. (junk i)\<lparr>bkt_probelen := 0\<rparr>) [0..<cap]\<rparr> of
             None \<Rightarrow> None
           | Some new \<Rightarrow> Some ([Realloc bytes], Some new)))"

definition cc4_map_reserve ::
  "('k, 'v) cc4_map \<Rightarrow> nat \<Rightarrow> nat \<Rightarrow> nat \<Rightarrow> ('k \<Rightarrow> nat) \<Rightarrow> rat \<Rightarrow> ('k, 'v) realloc_fn \<Rightarrow>
   ('d event list \<times> ('k, 'v) cc4_allocing_fn_result_ty) option"
where
  "cc4_map_reserve cntr n el_size layout hash max_load realloc' =
     (case cc4_map_min_cap_for_n_els n max_load of
        None \<Rightarrow> None
      | Some cap \<Rightarrow>
          if cc4_map_cap cntr \<ge> cap then
            Some ([], cc4_make_allocing_fn_result cntr cc4_dummy_true_ptr)
          else
            (case cc4_map_make_rehash cntr cap el_size layout hash realloc' of
               None \<Rightarrow> None
             | Some (evs, None) \<Rightarrow> Some (evs, cc4_make_allocing_fn_result cntr 0)
             | Some (evs, Some new) \<Rightarrow>
                 Some (evs @ (if \<not> cc4_map_is_placeholder cntr then [Free (hndl cntr)] else []),
                       cc4_make_allocing_fn_result new cc4_dummy_true_ptr)))"

definition cc4_map_insert ::
  "('k, 'v) cc4_map \<Rightarrow> 'v \<Rightarrow> 'k \<Rightarrow> bool \<Rightarrow> nat \<Rightarrow> nat \<Rightarrow> ('k \<Rightarrow> nat) \<Rightarrow> ('k \<Rightarrow> 'k \<Rightarrow> int) \<Rightarrow>
   rat \<Rightarrow> 'd option \<Rightarrow> 'd option \<Rightarrow> ('k, 'v) realloc_fn \<Rightarrow>
   ('d event list \<times> ('k, 'v) cc4_allocing_fn_result_ty) option"
where
  "cc4_map_insert cntr el key replace el_size layout hash cmpr max_load el_dtor key_dtor
       realloc' =
     (if of_nat (size_t (cc4_map_size cntr + 1)) > of_nat (cc4_map_cap cntr) * max_load then
        (case cc4_map_reserve cntr (size_t (cc4_map_size cntr + 1)) el_size layout hash
                max_load realloc' of
           None \<Rightarrow> None
         | Some (evs, result) \<Rightarrow>
             if other_ptr result = 0 then Some (evs, result)
             else
               (case cc4_map_insert_raw (new_cntr result) el key replace el_size layout
                       hash cmpr el_dtor key_dtor of
                  None \<Rightarrow> None
                | Some (evs', cntr', new_el) \<Rightarrow>
                    Some (evs @ evs', cc4_make_allocing_fn_result cntr' new_el)))
      else
        (case cc4_map_insert_raw cntr el key replace el_size layout hash cmpr el_dtor
                key_dtor of
           None \<Rightarrow> None
         | Some (evs', cntr', new_el) \<Rightarrow>
             Some (evs', cc4_make_allocing_fn_result cntr' new_el)))"

section \<open>Lookup\<close>

partial_function (option) get_loop ::
  "('k, 'v) cc4_map \<Rightarrow> 'k \<Rightarrow> nat \<Rightarrow> nat \<Rightarrow> ('k \<Rightarrow> 'k \<Rightarrow> int) \<Rightarrow> nat \<Rightarrow> nat \<Rightarrow> addr option"
where
  "get_loop cntr key el_size layout cmpr i probelen =
     (if i < length (buckets cntr) then
        if probelen \<le> bkt_probelen (buckets cntr ! i) then
          if probelen = bkt_probelen (buckets cntr ! i) \<and>
             cmpr (bkt_key (buckets cntr ! i)) key = 0 then
            Some (cc4_map_el (hndl cntr) i el_size layout)
          else
            get_loop cntr key el_size layout cmpr
              (next_bucket (hdr_cap cntr) i) (probelen_ty (probelen + 1))
        else Some 0
      else None)"

definition cc4_map_get ::
  "('k, 'v) cc4_map \<Rightarrow> 'k \<Rightarrow> nat \<Rightarrow> nat \<Rightarrow> ('k \<Rightarrow> nat) \<Rightarrow> ('k \<Rightarrow> 'k \<Rightarrow> int) \<Rightarrow> addr option"
where
  "cc4_map_get cntr key el_size layout hash cmpr =
     (if cc4_map_size cntr = 0 then Some 0
      else get_loop cntr key el_size layout cmpr (home_bucket (hdr_cap cntr) (hash key)) 1)"

section \<open>Erasure\<close>

partial_function (option) erase_shift ::
  "('k, 'v) cc4_map \<Rightarrow> nat \<Rightarrow> ('k, 'v) cc4_map option"
where
  "erase_shift cntr i =
     (let nxt = next_bucket (hdr_cap cntr) i in
      if i < length (buckets cntr) \<and> nxt < length (buckets cntr) then
        if bkt_probelen (buckets cntr ! nxt) \<le> 1 then Some cntr
        else
          (let moved = (buckets cntr)
                 [i := (buckets cntr ! i)
                    \<lparr>bkt_key := bkt_key (buckets cntr ! nxt),
                     bkt_el := bkt_el (buckets cntr ! nxt),
                     bkt_probelen := bkt_probelen (buckets cntr ! nxt) - 1\<rparr>]
           in erase_shift
                (cntr\<lparr>buckets := moved[nxt := (moved ! nxt)\<lparr>bkt_probelen := 0\<rparr>]\<rparr>) nxt)
      else None)"

text \<open>
  The iterator is the address of the element of a bucket; the bucket's index is the
  pointer difference divided by the bucket size. An iterator below the first bucket or
  beyond the array is outside the block (\<open>None\<close>).
\<close>

definition cc4_map_erase_itr ::
  "('k, 'v) cc4_map \<Rightarrow> addr \<Rightarrow> nat \<Rightarrow> nat \<Rightarrow> 'd option \<Rightarrow> 'd option \<Rightarrow>
   ('d event list \<times> ('k, 'v) cc4_map) option"
where
  "cc4_map_erase_itr cntr itr el_size layout el_dtor key_dtor =
     (if cc4_map_el (hndl cntr) 0 el_size layout \<le> itr then
        (let i = (itr - cc4_map_el (hndl cntr) 0 el_size layout)
                   div CC4_BUCKET_SIZE el_size layout
         in if i < length (buckets cntr) then
              (case erase_shift
                      (cntr\<lparr>buckets := (buckets cntr)
                                [i := (buckets cntr ! i)\<lparr>bkt_probelen := 0\<rparr>],
                            hdr_size := size_t_dec (hdr_size cntr)\<rparr>) i of
                 None \<Rightarrow> None
               | Some cntr' \<Rightarrow>
                   Some (call_dtor key_dtor (cc4_map_key (hndl cntr) i el_size layout) @
                         call_dtor el_dtor (cc4_map_el (hndl cntr) i el_size layout),
                         cntr'))
            else None)
      else None)"

partial_function (option) erase_loop ::
  "('k, 'v) cc4_map \<Rightarrow> 'k \<Rightarrow> nat \<Rightarrow> nat \<Rightarrow> ('k \<Rightarrow> 'k \<Rightarrow> int) \<Rightarrow> 'd option \<Rightarrow> 'd option \<Rightarrow>
   nat \<Rightarrow> nat \<Rightarrow> ('d event list \<times> ('k, 'v) cc4_map \<times> addr) option"
where
  "erase_loop cntr key el_size layout cmpr el_dtor key_dtor i probelen =
     (if i < length (buckets cntr) then
        if probelen \<le> bkt_probelen (buckets cntr ! i) then
          if probelen = bkt_probelen (buckets cntr ! i) \<and>
             cmpr (bkt_key (buckets cntr ! i)) key = 0 then
            (case cc4_map_erase_itr cntr (cc4_map_el (hndl cntr) i el_size layout)
                    el_size layout el_dtor key_dtor of
               None \<Rightarrow> None
             | Some (evs, cntr') \<Rightarrow> Some (evs, cntr', cc4_dummy_true_ptr))
          else
            erase_loop cntr key el_size layout cmpr el_dtor key_dtor
              (next_bucket (hdr_cap cntr) i) (probelen_ty (probelen + 1))
        else Some ([], cntr, 0)
      else None)"

definition cc4_map_erase ::
  "('k, 'v) cc4_map \<Rightarrow> 'k \<Rightarrow> nat \<Rightarrow> nat \<Rightarrow> ('k \<Rightarrow> nat) \<Rightarrow> ('k \<Rightarrow> 'k \<Rightarrow> int) \<Rightarrow>
   'd option \<Rightarrow> 'd option \<Rightarrow> ('d event list \<times> ('k, 'v) cc4_map \<times> addr) option"
where
  "cc4_map_erase cntr key el_size layout hash cmpr el_dtor key_dtor =
     (if cc4_map_size cntr = 0 then Some ([], cntr, 0)
      else erase_loop cntr key el_size layout cmpr el_dtor key_dtor
             (home_bucket (hdr_cap cntr) (hash key)) 1)"

section \<open>Shrinking, cloning, clearing and cleanup\<close>

definition cc4_map_shrink ::
  "('k, 'v) cc4_map \<Rightarrow> nat \<Rightarrow> nat \<Rightarrow> ('k \<Rightarrow> nat) \<Rightarrow> rat \<Rightarrow> ('k, 'v) realloc_fn \<Rightarrow>
   ('d event list \<times> ('k, 'v) cc4_allocing_fn_result_ty) option"
where
  "cc4_map_shrink cntr el_size layout hash max_load realloc' =
     (case cc4_map_min_cap_for_n_els (cc4_map_size cntr) max_load of
        None \<Rightarrow> None
      | Some cap \<Rightarrow>
          if cap = cc4_map_cap cntr then
            Some ([], cc4_make_allocing_fn_result cntr cc4_dummy_true_ptr)
          else if cap = 0 then
            Some (if \<not> cc4_map_is_placeholder cntr then [Free (hndl cntr)] else [],
                  cc4_make_allocing_fn_result cc4_map_placeholder cc4_dummy_true_ptr)
          else
            (case cc4_map_make_rehash cntr cap el_size layout hash realloc' of
               None \<Rightarrow> None
             | Some (evs, None) \<Rightarrow> Some (evs, cc4_make_allocing_fn_result cntr 0)
             | Some (evs, Some new) \<Rightarrow>
                 Some (evs @ (if \<not> cc4_map_is_placeholder cntr then [Free (hndl cntr)] else []),
                       cc4_make_allocing_fn_result new cc4_dummy_true_ptr)))"

text \<open>
  \<^verbatim>\<open>cc4_map_init_clone\<close> returns a pointer: \<open>None\<close> in the second component is the null
  pointer. The \<^verbatim>\<open>memcpy\<close> of the whole block gives the copy the header and the buckets
  of the source.
\<close>

definition cc4_map_init_clone ::
  "('k, 'v) cc4_map \<Rightarrow> nat \<Rightarrow> nat \<Rightarrow> ('k, 'v) realloc_fn \<Rightarrow>
   'd event list \<times> ('k, 'v) cc4_map option"
where
  "cc4_map_init_clone src el_size layout realloc' =
     (if cc4_map_size src = 0 then ([], Some cc4_map_placeholder)
      else
        (let bytes = size_t (sizeof_map_hdr + CC4_BUCKET_SIZE el_size layout * cc4_map_cap src)
         in case realloc' bytes of
              None \<Rightarrow> ([Realloc bytes], None)
            | Some (p, junk) \<Rightarrow> ([Realloc bytes], Some (src\<lparr>hndl := p\<rparr>))))"

fun clear_loop ::
  "('k, 'v) cc4_map \<Rightarrow> nat \<Rightarrow> nat \<Rightarrow> 'd option \<Rightarrow> 'd option \<Rightarrow> nat list \<Rightarrow>
   ('d event list \<times> ('k, 'v) cc4_map) option"
where
  "clear_loop cntr el_size layout el_dtor key_dtor [] = Some ([], cntr)"
| "clear_loop cntr el_size layout el_dtor key_dtor (i # is) =
     (if i < length (buckets cntr) then
        if bkt_probelen (buckets cntr ! i) \<noteq> 0 then
          (case clear_loop
                  (cntr\<lparr>buckets := (buckets cntr)
                     [i := (buckets cntr ! i)\<lparr>bkt_probelen := 0\<rparr>]\<rparr>)
                  el_size layout el_dtor key_dtor is of
             None \<Rightarrow> None
           | Some (evs, cntr') \<Rightarrow>
               Some (call_dtor key_dtor (cc4_map_key (hndl cntr) i el_size layout) @
                     call_dtor el_dtor (cc4_map_el (hndl cntr) i el_size layout) @ evs,
                     cntr'))
        else clear_loop cntr el_size layout el_dtor key_dtor is
      else None)"

definition cc4_map_clear ::
  "('k, 'v) cc4_map \<Rightarrow> nat \<Rightarrow> nat \<Rightarrow> 'd option \<Rightarrow> 'd option \<Rightarrow>
   ('d event list \<times> ('k, 'v) cc4_map) option"
where
  "cc4_map_clear cntr el_size layout el_dtor key_dtor =
     (if cc4_map_size cntr = 0 then Some ([], cntr)
      else
        (case clear_loop cntr el_size layout el_dtor key_dtor [0..<hdr_cap cntr] of
           None \<Rightarrow> None
         | Some (evs, cntr') \<Rightarrow> Some (evs, cntr'\<lparr>hdr_size := 0\<rparr>)))"

text \<open>
  \<^verbatim>\<open>cc4_map_cleanup\<close> passes \<^verbatim>\<open>key_dtor, el_dtor\<close> to \<^verbatim>\<open>cc4_map_clear\<close>, whose parameters
  are \<^verbatim>\<open>el_dtor, key_dtor\<close> in this order. The block is freed; the macro
  \<^verbatim>\<open>cc4_cleanup\<close> then sets the handle to the placeholder (\<^verbatim>\<open>cc4_init\<close>).
\<close>

definition cc4_map_cleanup ::
  "('k, 'v) cc4_map \<Rightarrow> nat \<Rightarrow> nat \<Rightarrow> 'd option \<Rightarrow> 'd option \<Rightarrow> 'd event list option"
where
  "cc4_map_cleanup cntr el_size layout el_dtor key_dtor =
     (case cc4_map_clear cntr el_size layout key_dtor el_dtor of
        None \<Rightarrow> None
      | Some (evs, cntr') \<Rightarrow>
          Some (evs @ (if \<not> cc4_map_is_placeholder cntr' then [Free (hndl cntr')] else [])))"

definition cc4_cleanup ::
  "('k, 'v) cc4_map \<Rightarrow> nat \<Rightarrow> nat \<Rightarrow> 'd option \<Rightarrow> 'd option \<Rightarrow>
   ('d event list \<times> ('k, 'v) cc4_map) option"
where
  "cc4_cleanup cntr el_size layout el_dtor key_dtor =
     (case cc4_map_cleanup cntr el_size layout el_dtor key_dtor of
        None \<Rightarrow> None
      | Some evs \<Rightarrow> Some (evs, cc4_map_placeholder))"

section \<open>Iteration\<close>

definition cc4_map_r_end :: "('k, 'v) cc4_map \<Rightarrow> addr" where
  "cc4_map_r_end cntr = hndl cntr"

definition cc4_map_end :: "('k, 'v) cc4_map \<Rightarrow> nat \<Rightarrow> nat \<Rightarrow> addr" where
  "cc4_map_end cntr el_size layout = cc4_map_el (hndl cntr) (hdr_cap cntr) el_size layout"

fun first_loop :: "('k, 'v) cc4_map \<Rightarrow> nat \<Rightarrow> nat \<Rightarrow> nat list \<Rightarrow> addr option" where
  "first_loop cntr el_size layout [] = Some (cc4_map_end cntr 0 layout)"
| "first_loop cntr el_size layout (i # is) =
     (if i < length (buckets cntr) then
        if bkt_probelen (buckets cntr ! i) \<noteq> 0 then
          Some (cc4_map_el (hndl cntr) i el_size layout)
        else first_loop cntr el_size layout is
      else None)"

definition cc4_map_first :: "('k, 'v) cc4_map \<Rightarrow> nat \<Rightarrow> nat \<Rightarrow> addr option" where
  "cc4_map_first cntr el_size layout = first_loop cntr el_size layout [0..<hdr_cap cntr]"

fun last_loop :: "('k, 'v) cc4_map \<Rightarrow> nat \<Rightarrow> nat \<Rightarrow> nat list \<Rightarrow> addr option" where
  "last_loop cntr el_size layout [] = Some (cc4_map_r_end cntr)"
| "last_loop cntr el_size layout (i # is) =
     (if i < length (buckets cntr) then
        if bkt_probelen (buckets cntr ! i) \<noteq> 0 then
          Some (cc4_map_el (hndl cntr) i el_size layout)
        else last_loop cntr el_size layout is
      else None)"

definition cc4_map_last :: "('k, 'v) cc4_map \<Rightarrow> nat \<Rightarrow> nat \<Rightarrow> addr option" where
  "cc4_map_last cntr el_size layout = last_loop cntr el_size layout (rev [0..<hdr_cap cntr])"

section \<open>Hashing of null-terminated strings\<close>

text \<open>
  The string is the bytes from the pointer on; the loop stops at the first zero byte.
  \<open>None\<close>: the bytes given hold no terminator.
\<close>

fun hash_c_string_32_loop :: "32 word \<Rightarrow> 8 word list \<Rightarrow> 32 word option" where
  "hash_c_string_32_loop hash [] = None"
| "hash_c_string_32_loop hash (c # val) =
     (if c \<noteq> 0 then hash_c_string_32_loop ((ucast c XOR hash) * 0x811c9dc5) val
      else Some hash)"

definition cc4_hash_c_string_32 :: "8 word list \<Rightarrow> 32 word option" where
  "cc4_hash_c_string_32 val = hash_c_string_32_loop 0x01000193 val"

fun hash_c_string_64_loop :: "64 word \<Rightarrow> 8 word list \<Rightarrow> 64 word option" where
  "hash_c_string_64_loop hash [] = None"
| "hash_c_string_64_loop hash (c # val) =
     (if c \<noteq> 0 then hash_c_string_64_loop ((ucast c XOR hash) * 0x100000001b3) val
      else Some hash)"

definition cc4_hash_c_string_64 :: "8 word list \<Rightarrow> 64 word option" where
  "cc4_hash_c_string_64 val = hash_c_string_64_loop 0xcbf29ce484222325 val"

text \<open>
  FNV-1a as the specification words it: starting from the offset basis, each byte is
  XORed into the hash and the result multiplied by the FNV prime.
\<close>

definition fnv1a_32 :: "8 word list \<Rightarrow> 32 word" where
  "fnv1a_32 bs = foldl (\<lambda>h b. (h XOR ucast b) * 0x01000193) 0x811c9dc5 bs"

definition fnv1a_64 :: "8 word list \<Rightarrow> 64 word" where
  "fnv1a_64 bs = foldl (\<lambda>h b. (h XOR ucast b) * 0x100000001b3) 0xcbf29ce484222325 bs"

section \<open>Default comparison and hash of \<^verbatim>\<open>size_t\<close> keys\<close>

definition cc4_cmpr_size_t :: "nat \<Rightarrow> nat \<Rightarrow> int" where
  "cc4_cmpr_size_t val_1 val_2 =
     (if val_1 > val_2 then 1 else 0) - (if val_1 < val_2 then 1 else 0)"

definition cc4_hash_size_t :: "nat \<Rightarrow> nat" where
  "cc4_hash_size_t val = size_t (val * 2654435761)"

section \<open>Allocators used in the examples\<close>

text \<open>
  An allocator that answers every request with the block at address \<open>p\<close>, whose buckets
  all hold \<open>junk\<close>, and one that fails every request.
\<close>

definition realloc_at :: "addr \<Rightarrow> ('k, 'v) bucket \<Rightarrow> ('k, 'v) realloc_fn" where
  "realloc_at p junk n = Some (p, \<lambda>i. junk)"

definition realloc_fails :: "('k, 'v) realloc_fn" where
  "realloc_fails n = None"

definition junk_bucket :: "(nat, nat) bucket" where
  "junk_bucket = \<lparr>bkt_el = 170, bkt_key = 187, bkt_probelen = 204\<rparr>"

section \<open>Tables used in the examples\<close>

text \<open>
  The block at address \<open>8192\<close> with eight buckets, as \<^verbatim>\<open>cc4_map_make_rehash\<close> leaves it
  when the old table has no entry, and the same block after key \<open>3\<close> with element \<open>10\<close>
  was inserted.
\<close>

definition empty_map_8 :: "(nat, nat) cc4_map" where
  "empty_map_8 =
     \<lparr>hndl = 8192, hdr_size = 0, hdr_cap = 8,
      buckets = map (\<lambda>i. junk_bucket\<lparr>bkt_probelen := 0\<rparr>) [0..<8]\<rparr>"

definition one_entry_map :: "(nat, nat) cc4_map" where
  "one_entry_map =
     \<lparr>hndl = 8192, hdr_size = 1, hdr_cap = 8,
      buckets =
        map (\<lambda>i. junk_bucket\<lparr>bkt_probelen := 0\<rparr>) [0..<3] @
        \<lparr>bkt_el = 10, bkt_key = 3, bkt_probelen = 1\<rparr> #
        map (\<lambda>i. junk_bucket\<lparr>bkt_probelen := 0\<rparr>) [4..<8]\<rparr>"

text \<open>
  The same entry in a block of 16 buckets at another address: what a reservation for
  seven elements makes of the table above.
\<close>

definition one_entry_map_16 :: "(nat, nat) cc4_map" where
  "one_entry_map_16 =
     \<lparr>hndl = 12288, hdr_size = 1, hdr_cap = 16,
      buckets =
        map (\<lambda>i. junk_bucket\<lparr>bkt_probelen := 0\<rparr>) [0..<3] @
        \<lparr>bkt_el = 10, bkt_key = 3, bkt_probelen = 1\<rparr> #
        map (\<lambda>i. junk_bucket\<lparr>bkt_probelen := 0\<rparr>) [4..<16]\<rparr>"

text \<open>
  The table after inserting key 3 with element 10 and then key 11 with element 20: both
  keys have home bucket 3, so key 11 sits one bucket further with probe length 2.
\<close>

definition two_entry_map :: "(nat, nat) cc4_map" where
  "two_entry_map =
     \<lparr>hndl = 8192, hdr_size = 2, hdr_cap = 8,
      buckets =
        map (\<lambda>i. junk_bucket\<lparr>bkt_probelen := 0\<rparr>) [0..<3] @
        \<lparr>bkt_el = 10, bkt_key = 3, bkt_probelen = 1\<rparr> #
        \<lparr>bkt_el = 20, bkt_key = 11, bkt_probelen = 2\<rparr> #
        map (\<lambda>i. junk_bucket\<lparr>bkt_probelen := 0\<rparr>) [5..<8]\<rparr>"

section \<open>The Robin Hood invariant\<close>

text \<open>
  The comparison function decides equality of keys, and the maximum load factor lies in
  \<open>(0, 1]\<close>.
\<close>

definition cmpr_ok :: "('k \<Rightarrow> 'k \<Rightarrow> int) \<Rightarrow> bool" where
  "cmpr_ok cmpr \<longleftrightarrow> (\<forall>a b. cmpr a b = 0 \<longleftrightarrow> a = b)"

definition max_load_ok :: "rat \<Rightarrow> bool" where
  "max_load_ok max_load \<longleftrightarrow> 0 < max_load \<and> max_load \<le> 1"

abbreviation pl :: "('k, 'v) cc4_map \<Rightarrow> nat \<Rightarrow> nat" where
  "pl cntr x \<equiv> bkt_probelen (buckets cntr ! x)"

text \<open>
  The block holds \<open>cap\<close> buckets, and \<open>cap\<close> is \<open>0\<close> or a power of two of at most \<open>2\<^sup>3\<^sup>1\<close>
  (so that a 32-bit probe length cannot wrap).
\<close>

definition shape_ok :: "('k, 'v) cc4_map \<Rightarrow> bool" where
  "shape_ok cntr \<longleftrightarrow>
     length (buckets cntr) = hdr_cap cntr \<and> (hdr_cap cntr = 0 \<or> (\<exists>j\<le>31. hdr_cap cntr = 2 ^ j))"

definition size_ok :: "('k, 'v) cc4_map \<Rightarrow> bool" where
  "size_ok cntr \<longleftrightarrow> hdr_size cntr = card {x. x < hdr_cap cntr \<and> pl cntr x \<noteq> 0}"

text \<open>An occupied bucket \<open>x\<close> with probe length \<open>p\<close> lies \<open>p - 1\<close> buckets after its home.\<close>

definition homes_ok :: "('k \<Rightarrow> nat) \<Rightarrow> ('k, 'v) cc4_map \<Rightarrow> bool" where
  "homes_ok hash cntr \<longleftrightarrow>
     (\<forall>x<hdr_cap cntr. pl cntr x \<le> hdr_cap cntr \<and>
        (pl cntr x \<noteq> 0 \<longrightarrow>
           (hash (bkt_key (buckets cntr ! x)) + (pl cntr x - 1)) mod hdr_cap cntr = x))"

text \<open>From a bucket to the next one the probe length grows by at most one.\<close>

definition order_ok :: "('k, 'v) cc4_map \<Rightarrow> bool" where
  "order_ok cntr \<longleftrightarrow>
     (\<forall>x<hdr_cap cntr. pl cntr ((x + 1) mod hdr_cap cntr) \<le> pl cntr x + 1)"

definition keys_distinct :: "('k, 'v) cc4_map \<Rightarrow> bool" where
  "keys_distinct cntr \<longleftrightarrow>
     (\<forall>x<hdr_cap cntr. \<forall>y<hdr_cap cntr.
        pl cntr x \<noteq> 0 \<and> pl cntr y \<noteq> 0 \<and>
        bkt_key (buckets cntr ! x) = bkt_key (buckets cntr ! y) \<longrightarrow> x = y)"

definition rh_inv :: "('k \<Rightarrow> nat) \<Rightarrow> ('k, 'v) cc4_map \<Rightarrow> bool" where
  "rh_inv hash cntr \<longleftrightarrow>
     shape_ok cntr \<and> size_ok cntr \<and> homes_ok hash cntr \<and> order_ok cntr \<and> keys_distinct cntr"

text \<open>What the table holds: key \<open>k\<close> with element \<open>v\<close> in an occupied bucket.\<close>

definition holds :: "('k, 'v) cc4_map \<Rightarrow> 'k \<Rightarrow> 'v \<Rightarrow> bool" where
  "holds cntr k v \<longleftrightarrow>
     (\<exists>x<hdr_cap cntr. pl cntr x \<noteq> 0 \<and> bkt_key (buckets cntr ! x) = k \<and>
        bkt_el (buckets cntr ! x) = v)"

definition has_key :: "('k, 'v) cc4_map \<Rightarrow> 'k \<Rightarrow> bool" where
  "has_key cntr k \<longleftrightarrow> (\<exists>x<hdr_cap cntr. pl cntr x \<noteq> 0 \<and> bkt_key (buckets cntr ! x) = k)"

text \<open>
  The table in the middle of an insertion: the entry with key \<open>k\<close> and probe length \<open>c\<close> is
  carried to bucket \<open>i\<close> and not yet stored; the header already counts it.
\<close>

definition carry_inv :: "('k \<Rightarrow> nat) \<Rightarrow> ('k, 'v) cc4_map \<Rightarrow> nat \<Rightarrow> 'k \<Rightarrow> nat \<Rightarrow> bool" where
  "carry_inv hash cntr i k c \<longleftrightarrow>
     length (buckets cntr) = hdr_cap cntr \<and> (\<exists>j\<le>31. hdr_cap cntr = 2 ^ j) \<and>
     i < hdr_cap cntr \<and>
     hdr_size cntr = Suc (card {x. x < hdr_cap cntr \<and> pl cntr x \<noteq> 0}) \<and>
     homes_ok hash cntr \<and> keys_distinct cntr \<and> \<not> has_key cntr k \<and>
     1 \<le> c \<and> c \<le> hdr_cap cntr \<and> (hash k + (c - 1)) mod hdr_cap cntr = i \<and>
     (\<forall>x<hdr_cap cntr. (x + 1) mod hdr_cap cntr \<noteq> i \<longrightarrow>
        pl cntr ((x + 1) mod hdr_cap cntr) \<le> pl cntr x + 1) \<and>
     (\<forall>x<hdr_cap cntr. (x + 1) mod hdr_cap cntr = i \<longrightarrow> c \<le> pl cntr x + 1) \<and>
     pl cntr i \<le> c"

text \<open>
  The table in the middle of an erasure: bucket \<open>i\<close> has been vacated, and the entry after
  it may still have to move back.
\<close>

definition hole_inv :: "('k \<Rightarrow> nat) \<Rightarrow> ('k, 'v) cc4_map \<Rightarrow> nat \<Rightarrow> bool" where
  "hole_inv hash cntr i \<longleftrightarrow>
     length (buckets cntr) = hdr_cap cntr \<and> (\<exists>j\<le>31. hdr_cap cntr = 2 ^ j) \<and>
     i < hdr_cap cntr \<and> pl cntr i = 0 \<and>
     size_ok cntr \<and> homes_ok hash cntr \<and> keys_distinct cntr \<and>
     (\<forall>x<hdr_cap cntr. x \<noteq> i \<longrightarrow>
        pl cntr ((x + 1) mod hdr_cap cntr) \<le> pl cntr x + 1) \<and>
     (\<forall>x<hdr_cap cntr. (x + 1) mod hdr_cap cntr = i \<longrightarrow>
        pl cntr ((i + 1) mod hdr_cap cntr) \<le> pl cntr x + 2)"

text \<open>
  \<open>get(k)\<close> returns the element \<open>v\<close>: the iterator it returns is the address of the
  element of an occupied bucket that holds key \<open>k\<close> and element \<open>v\<close>.
\<close>

definition get_returns ::
  "('k, 'v) cc4_map \<Rightarrow> 'k \<Rightarrow> 'v \<Rightarrow> nat \<Rightarrow> nat \<Rightarrow> ('k \<Rightarrow> nat) \<Rightarrow> ('k \<Rightarrow> 'k \<Rightarrow> int) \<Rightarrow> bool"
where
  "get_returns cntr k v el_size layout hash cmpr \<longleftrightarrow>
     (\<exists>x<hdr_cap cntr.
        cc4_map_get cntr k el_size layout hash cmpr =
          Some (cc4_map_el (hndl cntr) x el_size layout) \<and>
        pl cntr x \<noteq> 0 \<and> bkt_key (buckets cntr ! x) = k \<and> bkt_el (buckets cntr ! x) = v)"


section \<open>Sequences of operations\<close>

text \<open>
  The slot that a search for a key of hash \<open>h\<close> looks at after \<open>m\<close> steps: it starts
  at the home bucket and goes to the next bucket \<open>m\<close> times.
\<close>

definition probe_slot :: "nat \<Rightarrow> nat \<Rightarrow> nat \<Rightarrow> nat" where
  "probe_slot cap h m = (next_bucket cap ^^ m) (home_bucket cap h)"

text \<open>
  The tables that a program can build: it starts from the placeholder and calls insert
  (with or without replacement), erase, reserve and shrink, with any arguments and any
  allocator. The stored probe length is an \<^verbatim>\<open>unsigned int\<close>; the tables considered have
  at most \<open>2\<^sup>3\<^sup>1\<close> buckets, so that no probe length wraps around.
\<close>

inductive reachable ::
  "('k \<Rightarrow> nat) \<Rightarrow> ('k \<Rightarrow> 'k \<Rightarrow> int) \<Rightarrow> rat \<Rightarrow> nat \<Rightarrow> nat \<Rightarrow> 'd option \<Rightarrow> 'd option \<Rightarrow>
   ('k, 'v) cc4_map \<Rightarrow> bool"
  for hash :: "'k \<Rightarrow> nat" and cmpr :: "'k \<Rightarrow> 'k \<Rightarrow> int" and max_load :: rat
    and el_size :: nat and layout :: nat and el_dtor :: "'d option" and key_dtor :: "'d option"
where
  init: "reachable hash cmpr max_load el_size layout el_dtor key_dtor cc4_map_placeholder"
| insert:
    "reachable hash cmpr max_load el_size layout el_dtor key_dtor cntr \<Longrightarrow>
     cc4_map_insert cntr el key replace el_size layout hash cmpr max_load el_dtor key_dtor
       realloc' = Some (evs, r) \<Longrightarrow>
     hdr_cap (new_cntr r) \<le> 2 ^ 31 \<Longrightarrow>
     reachable hash cmpr max_load el_size layout el_dtor key_dtor (new_cntr r)"
| erase:
    "reachable hash cmpr max_load el_size layout el_dtor key_dtor cntr \<Longrightarrow>
     cc4_map_erase cntr key el_size layout hash cmpr el_dtor key_dtor = Some (evs, cntr', p) \<Longrightarrow>
     reachable hash cmpr max_load el_size layout el_dtor key_dtor cntr'"
| reserve:
    "reachable hash cmpr max_load el_size layout el_dtor key_dtor cntr \<Longrightarrow>
     cc4_map_reserve cntr n el_size layout hash max_load realloc' =
       Some (evs :: 'd event list, r) \<Longrightarrow>
     hdr_cap (new_cntr r) \<le> 2 ^ 31 \<Longrightarrow>
     reachable hash cmpr max_load el_size layout el_dtor key_dtor (new_cntr r)"
| shrink:
    "reachable hash cmpr max_load el_size layout el_dtor key_dtor cntr \<Longrightarrow>
     cc4_map_shrink cntr el_size layout hash max_load realloc' =
       Some (evs :: 'd event list, r) \<Longrightarrow>
     hdr_cap (new_cntr r) \<le> 2 ^ 31 \<Longrightarrow>
     reachable hash cmpr max_load el_size layout el_dtor key_dtor (new_cntr r)"

text \<open>
  A run of \<^verbatim>\<open>cc4_insert\<close> calls (insert with replacement), one for each pair of the
  list, in order. The outer \<open>None\<close> is a call that does not return; \<open>Some None\<close> is a run
  that stopped at a failed allocation.
\<close>

fun insert_all ::
  "('k, 'v) cc4_map \<Rightarrow> ('k \<times> 'v) list \<Rightarrow> nat \<Rightarrow> nat \<Rightarrow> ('k \<Rightarrow> nat) \<Rightarrow> ('k \<Rightarrow> 'k \<Rightarrow> int) \<Rightarrow>
   rat \<Rightarrow> 'd option \<Rightarrow> 'd option \<Rightarrow> ('k, 'v) realloc_fn \<Rightarrow> ('k, 'v) cc4_map option option"
where
  "insert_all cntr [] el_size layout hash cmpr max_load el_dtor key_dtor realloc' =
     Some (Some cntr)"
| "insert_all cntr ((key, el) # kvs) el_size layout hash cmpr max_load el_dtor key_dtor
       realloc' =
     (case cc4_map_insert cntr el key True el_size layout hash cmpr max_load el_dtor key_dtor
             realloc' of
        None \<Rightarrow> None
      | Some (evs, r) \<Rightarrow>
          if other_ptr r = 0 then Some None
          else insert_all (new_cntr r) kvs el_size layout hash cmpr max_load el_dtor key_dtor
                 realloc')"
section \<open>Evaluation on concrete inputs\<close>

lemmas cc4_eval = size_t_def probelen_ty_def size_t_dec_def home_bucket_def next_bucket_def
  sizeof_probelen_def sizeof_map_hdr_def CC4_KEY_SIZE_def CC4_KEY_OFFSET_def
  CC4_PROBELEN_OFFSET_def CC4_BUCKET_SIZE_def cc4_map_placeholder_addr_def
  cc4_dummy_true_ptr_def cc4_map_placeholder_def cc4_map_size_def cc4_map_cap_def
  cc4_map_is_placeholder_def cc4_map_el_def cc4_map_key_def call_dtor_def
  cc4_make_allocing_fn_result_def insert_raw_inner.simps insert_raw_loop.simps
  cc4_map_insert_raw_def insert_raw_unique_loop.simps cc4_map_insert_raw_unique_def
  min_cap_loop.simps cc4_map_min_cap_for_n_els_def cc4_map_make_rehash_def
  cc4_map_reserve_def cc4_map_insert_def get_loop.simps cc4_map_get_def erase_shift.simps
  cc4_map_erase_itr_def erase_loop.simps cc4_map_erase_def cc4_map_shrink_def
  cc4_map_init_clone_def cc4_map_clear_def cc4_map_cleanup_def cc4_cleanup_def
  cc4_map_r_end_def cc4_map_end_def cc4_map_first_def cc4_map_last_def cc4_cmpr_size_t_def
  cc4_hash_size_t_def realloc_at_def realloc_fails_def junk_bucket_def empty_map_8_def
  one_entry_map_def one_entry_map_16_def two_entry_map_def upt_rec

section \<open>What the loops leave unchanged\<close>

lemma cc4_map_placeholder_sel [simp]:
  "hndl cc4_map_placeholder = cc4_map_placeholder_addr"
  "hdr_size cc4_map_placeholder = 0"
  "hdr_cap cc4_map_placeholder = 0"
  "buckets cc4_map_placeholder = []"
  by (simp_all add: cc4_map_placeholder_def)

lemma insert_raw_inner_frame:
  assumes "insert_raw_inner cntr i el key probelen = Some cntr'"
  shows "hndl cntr' = hndl cntr \<and> hdr_cap cntr' = hdr_cap cntr \<and>
         hdr_size cntr' = hdr_size cntr \<and> length (buckets cntr') = length (buckets cntr)"
  using assms
  by (induction rule: insert_raw_inner.raw_induct[rotated 1, consumes 1])
     (auto split: if_splits)

lemma insert_raw_unique_loop_frame:
  assumes "insert_raw_unique_loop cntr el key el_size layout i probelen = Some (cntr', itr)"
  shows "hndl cntr' = hndl cntr \<and> hdr_cap cntr' = hdr_cap cntr \<and>
         length (buckets cntr') = length (buckets cntr)"
  using assms
  by (induction cntr el key el_size layout i probelen "(cntr', itr)"
        rule: insert_raw_unique_loop.raw_induct[rotated 1, consumes 1])
     (auto split: if_splits option.splits dest: insert_raw_inner_frame)

lemma rehash_loop_frame:
  "rehash_loop cntr el_size layout hash is new = Some new' \<Longrightarrow>
   hndl new' = hndl new \<and> hdr_cap new' = hdr_cap new \<and>
   length (buckets new') = length (buckets new)"
proof (induction "is" arbitrary: new)
  case Nil
  then show ?case by simp
next
  case (Cons i "is")
  then show ?case
    by (auto split: if_splits option.splits prod.splits
        simp: cc4_map_insert_raw_unique_def dest!: insert_raw_unique_loop_frame)
qed

lemma cc4_map_make_rehash_frame:
  assumes "cc4_map_make_rehash cntr cap el_size layout hash realloc' = Some (evs, Some new)"
  shows "\<exists>p junk. realloc' (size_t (sizeof_map_hdr + CC4_BUCKET_SIZE el_size layout * cap))
            = Some (p, junk) \<and> hndl new = p \<and> hdr_cap new = cap \<and> length (buckets new) = cap"
  using assms
  by (auto simp: cc4_map_make_rehash_def Let_def split: option.splits prod.splits
      dest!: rehash_loop_frame)

section \<open>The string hash\<close>

lemma hash_c_string_64_loop_fnv:
  "0 \<notin> set bs \<Longrightarrow>
   hash_c_string_64_loop h (bs @ 0 # rest) =
     Some (foldl (\<lambda>h b. (h XOR ucast b) * 0x100000001b3) h bs)"
  by (induction bs arbitrary: h) (auto simp: xor.commute)

text \<open>
  The 64-bit variant computes FNV-1a of the bytes before the terminator, whatever follows
  the terminator in memory.
\<close>

lemma cc4_hash_c_string_64_fnv1a:
  "0 \<notin> set bs \<Longrightarrow> cc4_hash_c_string_64 (bs @ 0 # rest) = Some (fnv1a_64 bs)"
  by (simp add: cc4_hash_c_string_64_def fnv1a_64_def hash_c_string_64_loop_fnv)

text \<open>
  C6. The default string hash is FNV-1a, in the 32-bit variant (offset basis
  \<open>0x811c9dc5\<close>, prime \<open>0x01000193\<close>) when \<^verbatim>\<open>size_t\<close> has 32 bits. The 32-bit function of
  the source starts from \<open>0x01000193\<close> and multiplies by \<open>0x811c9dc5\<close>: on the string
  \<^verbatim>\<open>"a"\<close> it returns \<open>0xeeaae93a\<close> where FNV-1a is \<open>0xe40c292c\<close>, and on the empty string
  it returns \<open>0x01000193\<close> where FNV-1a is the offset basis \<open>0x811c9dc5\<close>.
\<close>

theorem cc4_hash_c_string_32_not_fnv1a:
  "cc4_hash_c_string_32 [0x61, 0] = Some 0xeeaae93a \<and> fnv1a_32 [0x61] = 0xe40c292c \<and>
   cc4_hash_c_string_32 [0] = Some 0x01000193 \<and> fnv1a_32 [] = 0x811c9dc5"
  by (simp add: cc4_hash_c_string_32_def fnv1a_32_def)

section \<open>Cleanup\<close>

text \<open>
  C7. Cleanup applies the key destructor to every live key and the element destructor to
  every live element. On the table that holds key \<open>3\<close> with element \<open>10\<close> (built by one
  insertion into the placeholder), \<^verbatim>\<open>cc4_map_cleanup\<close> calls the element destructor on
  the address of the key and the key destructor on the address of the element, before
  it frees the block; \<^verbatim>\<open>cc4_map_clear\<close> on the same table calls each destructor on the
  value of its own kind.
\<close>

theorem cc4_map_cleanup_swaps_dtors:
  "cc4_map_insert cc4_map_placeholder 10 3 True 4 4 cc4_hash_size_t cc4_cmpr_size_t (3 / 4)
     (Some ''el_dtor'') (Some ''key_dtor'') (realloc_at 8192 junk_bucket) =
     Some ([Realloc 112], cc4_make_allocing_fn_result one_entry_map (cc4_map_el 8192 3 4 4)) \<and>
   cc4_map_cleanup one_entry_map 4 4 (Some ''el_dtor'') (Some ''key_dtor'') =
     Some [Dtor ''el_dtor'' (cc4_map_key 8192 3 4 4), Dtor ''key_dtor'' (cc4_map_el 8192 3 4 4),
           Free 8192] \<and>
   cc4_map_key 8192 3 4 4 \<noteq> cc4_map_el 8192 3 4 4 \<and>
   map_option fst (cc4_map_clear one_entry_map 4 4 (Some ''el_dtor'') (Some ''key_dtor'')) =
     Some [Dtor ''key_dtor'' (cc4_map_key 8192 3 4 4), Dtor ''el_dtor'' (cc4_map_el 8192 3 4 4)]"
  by (simp add: cc4_eval)

section \<open>Sentinels\<close>

text \<open>
  C8. On a table with no occupied bucket, for every element size, \<open>first\<close> returns the
  end sentinel and \<open>last\<close> the r_end sentinel. The table with eight empty buckets is what
  a reservation for one element makes of the placeholder; with elements of four bytes
  its end sentinel is address \<open>8304\<close>, and \<^verbatim>\<open>cc4_map_first\<close> returns \<open>8272\<close>, the end
  computed for an element size of \<open>0\<close>. \<^verbatim>\<open>cc4_map_last\<close> returns r_end.
\<close>

theorem cc4_map_first_not_end:
  "map_option snd (cc4_map_reserve cc4_map_placeholder 1 4 4 cc4_hash_size_t (3 / 4)
      (realloc_at 8192 junk_bucket) :: (string event list \<times> _) option) =
     Some (cc4_make_allocing_fn_result empty_map_8 cc4_dummy_true_ptr) \<and>
   cc4_map_first empty_map_8 4 4 = Some 8272 \<and>
   cc4_map_end empty_map_8 4 4 = 8304 \<and>
   cc4_map_last empty_map_8 4 4 = Some (cc4_map_r_end empty_map_8)"
  by (simp add: cc4_eval)

section \<open>Cloning\<close>

text \<open>
  C10. For a source of size \<open>0\<close>, whatever its capacity, \<^verbatim>\<open>cc4_map_init_clone\<close> returns
  the placeholder (capacity \<open>0\<close>) and calls no allocator. For a source that holds entries
  it asks for one block: when the allocator fails it returns the null pointer, and
  otherwise the clone is that block with the capacity, size and buckets of the source.
\<close>

theorem cc4_map_init_clone_cases:
  fixes src :: "('k, 'v) cc4_map" and realloc' :: "('k, 'v) realloc_fn"
  shows
  "(cc4_map_size src = 0 \<longrightarrow>
      cc4_map_init_clone src el_size layout realloc' =
        ([] :: 'd event list, Some cc4_map_placeholder) \<and>
      cc4_map_cap (cc4_map_placeholder :: ('k, 'v) cc4_map) = 0) \<and>
   (cc4_map_size src \<noteq> 0 \<longrightarrow>
      (let bytes = size_t (sizeof_map_hdr + CC4_BUCKET_SIZE el_size layout * cc4_map_cap src) in
       (realloc' bytes = None \<longrightarrow>
          cc4_map_init_clone src el_size layout realloc' =
            ([Realloc bytes] :: 'd event list, None)) \<and>
       (\<forall>p junk. realloc' bytes = Some (p, junk) \<longrightarrow>
          (\<exists>clone. cc4_map_init_clone src el_size layout realloc' =
               ([Realloc bytes] :: 'd event list, Some clone) \<and>
             hndl clone = p \<and> cc4_map_cap clone = cc4_map_cap src \<and>
             cc4_map_size clone = cc4_map_size src \<and> buckets clone = buckets src))))"
  by (auto simp: cc4_map_init_clone_def Let_def cc4_map_placeholder_def cc4_map_cap_def
      cc4_map_size_def)

theorem cc4_map_init_clone_witness:
  "cc4_map_size empty_map_8 = 0 \<and> cc4_map_cap empty_map_8 = 8 \<and>
   cc4_map_init_clone empty_map_8 4 4 realloc_fails =
     ([] :: string event list, Some cc4_map_placeholder) \<and>
   cc4_map_size one_entry_map \<noteq> 0 \<and>
   cc4_map_init_clone one_entry_map 4 4 realloc_fails = ([Realloc 112 :: string event], None) \<and>
   cc4_map_init_clone one_entry_map 4 4 (realloc_at 12288 junk_bucket) =
     ([Realloc 112 :: string event], Some (one_entry_map\<lparr>hndl := 12288\<rparr>))"
  using cc4_map_init_clone_cases [of empty_map_8 4 4 realloc_fails, where ?'d = string]
    cc4_map_init_clone_cases [of one_entry_map 4 4 realloc_fails, where ?'d = string]
    cc4_map_init_clone_cases [of one_entry_map 4 4 "realloc_at 12288 junk_bucket",
      where ?'d = string]
  by (simp add: cc4_eval)

section \<open>Arithmetic of indices and capacities\<close>
lemma size_t_id: "x < 2 ^ 64 \<Longrightarrow> size_t x = x"
  by (simp add: size_t_def)

lemma probelen_ty_id: "x < 2 ^ 32 \<Longrightarrow> probelen_ty x = x"
  by (simp add: probelen_ty_def)

lemma size_t_dec_pos:
  assumes "0 < a" "a \<le> 2 ^ 64"
  shows "size_t_dec a = a - 1"
proof -
  define M :: nat where "M = 2 ^ 64"
  have M: "0 < M" "a \<le> M" using assms by (simp_all add: M_def)
  have "a + (M - 1) = (a - 1) + M" using assms(1) M by simp
  then have "(a + (M - 1)) mod M = (a - 1) mod M" by (metis mod_add_self2)
  also have "\<dots> = a - 1" using assms(1) M by simp
  finally show ?thesis by (simp add: size_t_dec_def size_t_def M_def)
qed

lemma pow2_le_64: "j \<le> 63 \<Longrightarrow> (2::nat) ^ j \<le> 2 ^ 64"
  by (rule power_increasing) auto

lemma size_t_dec_pow2: "j \<le> 63 \<Longrightarrow> size_t_dec (2 ^ j) = mask j"
  using size_t_dec_pos [OF _ pow2_le_64, of j] by (simp add: mask_eq_exp_minus_1)

lemma home_bucket_pow2:
  assumes "j \<le> 63"
  shows "home_bucket (2 ^ j) h = h mod 2 ^ j"
proof -
  have "(2::nat) ^ j dvd 2 ^ 64" using assms by (intro le_imp_power_dvd) auto
  then have "h mod 2 ^ 64 mod 2 ^ j = h mod 2 ^ j" by (rule mod_mod_cancel)
  moreover have "size_t_dec (2 ^ j) = mask j"
    using assms by (rule size_t_dec_pow2)
  ultimately show ?thesis
    by (simp add: home_bucket_def size_t_def take_bit_eq_mod flip: take_bit_eq_mask)
qed

lemma next_bucket_pow2:
  assumes "j \<le> 63"
  shows "next_bucket (2 ^ j) i = (i + 1) mod 2 ^ j"
proof -
  have "(2::nat) ^ j dvd 2 ^ 64" using assms by (intro le_imp_power_dvd) auto
  then have "(i + 1) mod 2 ^ 64 mod 2 ^ j = (i + 1) mod 2 ^ j" by (rule mod_mod_cancel)
  moreover have "size_t_dec (2 ^ j) = mask j"
    using assms by (rule size_t_dec_pow2)
  ultimately show ?thesis
    by (simp add: next_bucket_def size_t_def take_bit_eq_mod flip: take_bit_eq_mask)
qed

lemma min_cap_loop_result:
  assumes "min_cap_loop n max_load c0 = Some c" "0 < n"
    and "c0 = 0 \<or> (\<exists>j0\<le>60. c0 = 8 * 2 ^ j0)"
  shows "c0 \<noteq> 0 \<and> (\<exists>j. c = c0 * 2 ^ j \<and> c \<le> 2 ^ 63 \<and> of_nat n \<le> of_nat c * max_load \<and>
           (\<forall>i<j. of_nat n > of_nat (c0 * 2 ^ i) * max_load))"
  using assms
proof (induction rule: min_cap_loop.raw_induct[rotated 1, consumes 1])
  case (1 f n max_load c0 c)
  from "1.prems"(2) show ?case
  proof
    assume z: "c0 = 0"
    with "1.prems"(1) "1.hyps" have "f n max_load 0 = Some c"
      by (simp add: size_t_def)
    from "1.IH"[OF this "1.prems"(1)] show ?thesis by simp
  next
    assume "\<exists>j0\<le>60. c0 = 8 * 2 ^ j0"
    then obtain j0 where j0: "j0 \<le> 60" "c0 = 8 * 2 ^ j0" by blast
    have "(2::nat) ^ j0 \<le> 2 ^ 60" using j0(1) by (intro power_increasing) auto
    then have c0_le: "c0 \<le> 2 ^ 63" using j0(2) by simp
    have c0_pos: "c0 \<noteq> 0" using j0(2) by simp
    show ?thesis
    proof (cases "of_nat n > of_nat c0 * max_load")
      case False
      with "1.hyps" have "c = c0" by simp
      with False c0_le c0_pos show ?thesis by (intro conjI exI[of _ 0]) auto
    next
      case True
      with "1.hyps" have rec: "f n max_load (size_t (c0 * 2)) = Some c" by simp
      show ?thesis
      proof (cases "j0 = 60")
        case True
        then have "size_t (c0 * 2) = 0" using j0(2) by (simp add: size_t_def)
        with rec "1.IH"[of n max_load 0 c] "1.prems"(1) show ?thesis by simp
      next
        case False
        then have j1: "Suc j0 \<le> 60" using j0(1) by simp
        have eq: "c0 * 2 = 8 * 2 ^ Suc j0" using j0(2) by simp
        have "(2::nat) ^ j0 \<le> 2 ^ 59" using j1 by (intro power_increasing) auto
        then have "c0 * 2 < 2 ^ 64" using j0(2) by simp
        then have "size_t (c0 * 2) = c0 * 2" by (simp add: size_t_def)
        with rec have rec': "f n max_load (c0 * 2) = Some c" by simp
        have "c0 * 2 = 0 \<or> (\<exists>j0\<le>60. c0 * 2 = 8 * 2 ^ j0)"
          using j1 eq by blast
        from "1.IH"[OF rec' "1.prems"(1) this]
        obtain j where j: "c = c0 * 2 * 2 ^ j" "c \<le> 2 ^ 63" "of_nat n \<le> of_nat c * max_load"
          "\<forall>i<j. of_nat n > of_nat (c0 * 2 * 2 ^ i) * max_load" by blast
        have "\<forall>i<Suc j. of_nat n > of_nat (c0 * 2 ^ i) * max_load"
        proof (intro allI impI)
          fix i assume "i < Suc j"
          show "of_nat n > of_nat (c0 * 2 ^ i) * max_load"
          proof (cases i)
            case 0
            with True show ?thesis by simp
          next
            case (Suc i')
            with \<open>i < Suc j\<close> j(4) have "of_nat n > of_nat (c0 * 2 * 2 ^ i') * max_load" by simp
            with Suc show ?thesis by (simp add: mult.assoc)
          qed
        qed
        with j c0_pos show ?thesis
          by (intro conjI exI[of _ "Suc j"]) (simp_all add: mult.assoc)
      qed
    qed
  qed
qed

lemma min_cap_loop_terminates:
  assumes "0 < max_load" "of_nat n \<le> 2 ^ 63 * max_load" "j0 \<le> 60"
  shows "\<exists>c. min_cap_loop n max_load (8 * 2 ^ j0) = Some c"
  using assms(3)
proof (induction "60 - j0" arbitrary: j0)
  case 0
  then have "j0 = 60" using \<open>j0 \<le> 60\<close> by simp
  then have "(8 * 2 ^ j0 :: nat) = 2 ^ 63" by simp
  then have "of_nat (8 * 2 ^ j0 :: nat) * max_load = 2 ^ 63 * max_load"
    by (simp only: of_nat_power of_nat_numeral)
  with assms(2) have "\<not> of_nat n > of_nat (8 * 2 ^ j0 :: nat) * max_load"
    by (simp only: not_less)
  then show ?case by (subst min_cap_loop.simps) simp
next
  case (Suc d)
  then have j1: "Suc j0 \<le> 60" "d = 60 - Suc j0" by simp_all
  have "(2::nat) ^ j0 \<le> 2 ^ 59" using j1(1) by (intro power_increasing) auto
  then have "(8 * 2 ^ j0 :: nat) * 2 < 2 ^ 64" by simp
  then have st: "size_t (8 * 2 ^ j0 * 2) = 8 * 2 ^ Suc j0" by (simp add: size_t_def)
  from Suc.hyps(1)[OF j1(2) j1(1)] obtain c where
    "min_cap_loop n max_load (8 * 2 ^ Suc j0) = Some c" by blast
  with st show ?case by (subst min_cap_loop.simps) auto
qed

lemma cc4_map_min_cap_for_n_els_terminates:
  assumes "0 < max_load" "of_nat n \<le> 2 ^ 63 * max_load"
  shows "\<exists>c. cc4_map_min_cap_for_n_els n max_load = Some c"
  using min_cap_loop_terminates[OF assms, of 0]
  by (simp add: cc4_map_min_cap_for_n_els_def)

lemma cc4_map_min_cap_for_n_els_result:
  assumes "cc4_map_min_cap_for_n_els n max_load = Some c"
  shows "(n = 0 \<and> c = 0) \<or>
         (0 < n \<and> (\<exists>j. c = 8 * 2 ^ j \<and> c \<le> 2 ^ 63 \<and> of_nat n \<le> of_nat c * max_load \<and>
            (\<forall>i<j. of_nat n > of_nat (8 * 2 ^ i :: nat) * max_load)))"
proof (cases "n = 0")
  case True
  with assms show ?thesis by (simp add: cc4_map_min_cap_for_n_els_def)
next
  case False
  then have "min_cap_loop n max_load 8 = Some c" "0 < n"
    using assms by (simp_all add: cc4_map_min_cap_for_n_els_def)
  from min_cap_loop_result[OF this] show ?thesis
    using False by (auto intro: exI[of _ 0])
qed

section \<open>Sentinels across a rehash\<close>

text \<open>
  C9, as the specification states it: the sentinels obtained before a rehash equal those
  obtained after it. A reservation for one element moves the placeholder's table to the
  block the allocator returns, and both sentinels change.
\<close>

theorem rehash_changes_sentinels:
  "cc4_map_reserve cc4_map_placeholder 1 4 4 cc4_hash_size_t (3 / 4)
      (realloc_at 8192 junk_bucket) =
     Some ([Realloc 112 :: string event],
           cc4_make_allocing_fn_result empty_map_8 cc4_dummy_true_ptr) \<and>
   cc4_map_r_end empty_map_8 \<noteq> cc4_map_r_end (cc4_map_placeholder :: (nat, nat) cc4_map) \<and>
   cc4_map_end empty_map_8 4 4 \<noteq> cc4_map_end (cc4_map_placeholder :: (nat, nat) cc4_map) 4 4"
  by (simp add: cc4_eval)

lemma reserve_sentinels:
  fixes cntr :: "('k, 'v) cc4_map" and evs :: "'d event list"
  assumes "cc4_map_reserve cntr n el_size layout hash max_load realloc' = Some (evs, r)"
    and "other_ptr r \<noteq> 0"
  shows "(cc4_map_cap (new_cntr r) = cc4_map_cap cntr \<longrightarrow> new_cntr r = cntr) \<and>
         (cc4_map_cap (new_cntr r) \<noteq> cc4_map_cap cntr \<longrightarrow>
            cc4_map_cap cntr < cc4_map_cap (new_cntr r) \<and>
            (\<exists>p junk.
               realloc' (size_t (sizeof_map_hdr +
                  CC4_BUCKET_SIZE el_size layout * cc4_map_cap (new_cntr r))) = Some (p, junk) \<and>
               cc4_map_r_end (new_cntr r) = p \<and>
               cc4_map_end (new_cntr r) el_size layout =
                 cc4_map_el p (cc4_map_cap (new_cntr r)) el_size layout \<and>
               (p \<noteq> hndl cntr \<longrightarrow> cc4_map_r_end (new_cntr r) \<noteq> cc4_map_r_end cntr)))"
  using assms
  by (auto simp: cc4_map_reserve_def cc4_make_allocing_fn_result_def
        cc4_map_cap_def cc4_map_r_end_def cc4_map_end_def
      split: option.splits if_splits dest!: cc4_map_make_rehash_frame)

lemma min_cap_zero:
  assumes "cc4_map_min_cap_for_n_els n max_load = Some 0"
  shows "n = 0"
  using cc4_map_min_cap_for_n_els_result[OF assms] by auto

lemma shrink_sentinels:
  fixes cntr :: "('k, 'v) cc4_map" and evs :: "'d event list"
  assumes "cc4_map_shrink cntr el_size layout hash max_load realloc' = Some (evs, r)"
    and "other_ptr r \<noteq> 0"
  shows "(cc4_map_cap (new_cntr r) = cc4_map_cap cntr \<longrightarrow> new_cntr r = cntr) \<and>
         (cc4_map_cap (new_cntr r) \<noteq> cc4_map_cap cntr \<longrightarrow>
            (if cc4_map_cap (new_cntr r) = 0 then
               cc4_map_size cntr = 0 \<and> new_cntr r = cc4_map_placeholder \<and>
               cc4_map_r_end (new_cntr r) = cc4_map_placeholder_addr \<and>
               cc4_map_end (new_cntr r) el_size layout =
                 cc4_map_el cc4_map_placeholder_addr 0 el_size layout
             else
               (\<exists>p junk.
                  realloc' (size_t (sizeof_map_hdr +
                     CC4_BUCKET_SIZE el_size layout * cc4_map_cap (new_cntr r))) =
                    Some (p, junk) \<and>
                  cc4_map_r_end (new_cntr r) = p \<and>
                  cc4_map_end (new_cntr r) el_size layout =
                    cc4_map_el p (cc4_map_cap (new_cntr r)) el_size layout \<and>
                  (p \<noteq> hndl cntr \<longrightarrow> cc4_map_r_end (new_cntr r) \<noteq> cc4_map_r_end cntr))))"
  using assms
  by (auto simp: cc4_map_shrink_def cc4_make_allocing_fn_result_def
        cc4_map_cap_def cc4_map_size_def cc4_map_r_end_def cc4_map_end_def
      split: option.splits if_splits dest!: cc4_map_make_rehash_frame min_cap_zero)

text \<open>
  C9, amended. A successful reserve that changes the capacity makes it larger and moves
  the table to the block that \<^verbatim>\<open>realloc_\<close> returned for the new capacity. A successful
  shrink that changes the capacity does the same when the new capacity is not \<open>0\<close>; when
  it is \<open>0\<close> the table was empty and the result is the placeholder. After a move to a new
  block r_end is the address of that block and end is the address of the bucket after its
  last one, so r_end differs from the r_end obtained before whenever the block's address
  differs from the old handle. After a shrink to capacity \<open>0\<close> both sentinels are those of
  the placeholder. A reserve or shrink that leaves the capacity as it is returns the table
  it was given.
\<close>

theorem rehash_sentinels:
  fixes cntr :: "('k, 'v) cc4_map" and evs :: "'d event list"
  assumes "other_ptr r \<noteq> 0"
  shows "(cc4_map_reserve cntr n el_size layout hash max_load realloc' = Some (evs, r) \<longrightarrow>
            (cc4_map_cap (new_cntr r) = cc4_map_cap cntr \<longrightarrow> new_cntr r = cntr) \<and>
            (cc4_map_cap (new_cntr r) \<noteq> cc4_map_cap cntr \<longrightarrow>
               cc4_map_cap cntr < cc4_map_cap (new_cntr r) \<and>
               (\<exists>p junk.
                  realloc' (size_t (sizeof_map_hdr +
                     CC4_BUCKET_SIZE el_size layout * cc4_map_cap (new_cntr r))) =
                    Some (p, junk) \<and>
                  cc4_map_r_end (new_cntr r) = p \<and>
                  cc4_map_end (new_cntr r) el_size layout =
                    cc4_map_el p (cc4_map_cap (new_cntr r)) el_size layout \<and>
                  (p \<noteq> hndl cntr \<longrightarrow> cc4_map_r_end (new_cntr r) \<noteq> cc4_map_r_end cntr)))) \<and>
         (cc4_map_shrink cntr el_size layout hash max_load realloc' = Some (evs, r) \<longrightarrow>
            (cc4_map_cap (new_cntr r) = cc4_map_cap cntr \<longrightarrow> new_cntr r = cntr) \<and>
            (cc4_map_cap (new_cntr r) \<noteq> cc4_map_cap cntr \<longrightarrow>
               (if cc4_map_cap (new_cntr r) = 0 then
                  cc4_map_size cntr = 0 \<and> new_cntr r = cc4_map_placeholder \<and>
                  cc4_map_r_end (new_cntr r) = cc4_map_placeholder_addr \<and>
                  cc4_map_end (new_cntr r) el_size layout =
                    cc4_map_el cc4_map_placeholder_addr 0 el_size layout
                else
                  (\<exists>p junk.
                     realloc' (size_t (sizeof_map_hdr +
                        CC4_BUCKET_SIZE el_size layout * cc4_map_cap (new_cntr r))) =
                       Some (p, junk) \<and>
                     cc4_map_r_end (new_cntr r) = p \<and>
                     cc4_map_end (new_cntr r) el_size layout =
                       cc4_map_el p (cc4_map_cap (new_cntr r)) el_size layout \<and>
                     (p \<noteq> hndl cntr \<longrightarrow>
                        cc4_map_r_end (new_cntr r) \<noteq> cc4_map_r_end cntr)))))"
proof (intro conjI impI)
  assume "cc4_map_reserve cntr n el_size layout hash max_load realloc' = Some (evs, r)"
  note rs = reserve_sentinels[OF this assms]
  {
    assume "cc4_map_cap (new_cntr r) = cc4_map_cap cntr"
    with rs show "new_cntr r = cntr" by blast
  next
    assume c: "cc4_map_cap (new_cntr r) \<noteq> cc4_map_cap cntr"
    with rs show "cc4_map_cap cntr < cc4_map_cap (new_cntr r)" by blast
    from rs c show "\<exists>p junk.
        realloc' (size_t (sizeof_map_hdr +
           CC4_BUCKET_SIZE el_size layout * cc4_map_cap (new_cntr r))) = Some (p, junk) \<and>
        cc4_map_r_end (new_cntr r) = p \<and>
        cc4_map_end (new_cntr r) el_size layout =
          cc4_map_el p (cc4_map_cap (new_cntr r)) el_size layout \<and>
        (p \<noteq> hndl cntr \<longrightarrow> cc4_map_r_end (new_cntr r) \<noteq> cc4_map_r_end cntr)"
      by blast
  }
next
  assume "cc4_map_shrink cntr el_size layout hash max_load realloc' = Some (evs, r)"
  note ss = shrink_sentinels[OF this assms]
  {
    assume "cc4_map_cap (new_cntr r) = cc4_map_cap cntr"
    with ss show "new_cntr r = cntr" by blast
  next
    assume "cc4_map_cap (new_cntr r) \<noteq> cc4_map_cap cntr"
    with ss show "if cc4_map_cap (new_cntr r) = 0 then
        cc4_map_size cntr = 0 \<and> new_cntr r = cc4_map_placeholder \<and>
        cc4_map_r_end (new_cntr r) = cc4_map_placeholder_addr \<and>
        cc4_map_end (new_cntr r) el_size layout =
          cc4_map_el cc4_map_placeholder_addr 0 el_size layout
      else
        (\<exists>p junk.
           realloc' (size_t (sizeof_map_hdr +
              CC4_BUCKET_SIZE el_size layout * cc4_map_cap (new_cntr r))) = Some (p, junk) \<and>
           cc4_map_r_end (new_cntr r) = p \<and>
           cc4_map_end (new_cntr r) el_size layout =
             cc4_map_el p (cc4_map_cap (new_cntr r)) el_size layout \<and>
           (p \<noteq> hndl cntr \<longrightarrow> cc4_map_r_end (new_cntr r) \<noteq> cc4_map_r_end cntr))"
      by blast
  }
qed

theorem rehash_sentinels_witness:
  "cc4_map_reserve cc4_map_placeholder 1 4 4 cc4_hash_size_t (3 / 4)
      (realloc_at 8192 junk_bucket) =
     Some ([Realloc 112 :: string event],
           cc4_make_allocing_fn_result empty_map_8 cc4_dummy_true_ptr) \<and>
   cc4_map_cap (cc4_map_placeholder :: (nat, nat) cc4_map) < cc4_map_cap empty_map_8 \<and>
   cc4_map_r_end empty_map_8 = 8192 \<and>
   cc4_map_end empty_map_8 4 4 = cc4_map_el 8192 8 4 4 \<and>
   cc4_map_r_end (cc4_map_placeholder :: (nat, nat) cc4_map) = 4096 \<and>
   cc4_map_reserve one_entry_map 7 4 4 cc4_hash_size_t (3 / 4)
      (realloc_at 12288 junk_bucket) =
     Some ([Realloc 208 :: string event, Free 8192],
           cc4_make_allocing_fn_result one_entry_map_16 cc4_dummy_true_ptr) \<and>
   cc4_map_cap one_entry_map < cc4_map_cap one_entry_map_16 \<and>
   cc4_map_r_end one_entry_map = 8192 \<and>
   cc4_map_r_end one_entry_map_16 = 12288 \<and>
   cc4_map_end one_entry_map 4 4 = cc4_map_el 8192 8 4 4 \<and>
   cc4_map_end one_entry_map_16 4 4 = cc4_map_el 12288 16 4 4 \<and>
   cc4_map_shrink one_entry_map_16 4 4 cc4_hash_size_t (3 / 4)
      (realloc_at 8192 junk_bucket) =
     Some ([Realloc 112 :: string event, Free 12288],
           cc4_make_allocing_fn_result one_entry_map cc4_dummy_true_ptr) \<and>
   cc4_map_cap one_entry_map \<noteq> 0 \<and>
   cc4_map_shrink empty_map_8 4 4 cc4_hash_size_t (3 / 4) realloc_fails =
     Some ([Free 8192 :: string event],
           cc4_make_allocing_fn_result cc4_map_placeholder cc4_dummy_true_ptr) \<and>
   cc4_map_size empty_map_8 = 0 \<and>
   cc4_map_cap (cc4_map_placeholder :: (nat, nat) cc4_map) = 0 \<and>
   cc4_map_end (cc4_map_placeholder :: (nat, nat) cc4_map) 4 4 =
     cc4_map_el cc4_map_placeholder_addr 0 4 4"
proof -
  have e1: "cc4_map_reserve cc4_map_placeholder 1 4 4 cc4_hash_size_t (3 / 4)
      (realloc_at 8192 junk_bucket) =
     Some ([Realloc 112 :: string event],
           cc4_make_allocing_fn_result empty_map_8 cc4_dummy_true_ptr)"
    by (simp add: cc4_eval)
  have e2: "cc4_map_reserve one_entry_map 7 4 4 cc4_hash_size_t (3 / 4)
      (realloc_at 12288 junk_bucket) =
     Some ([Realloc 208 :: string event, Free 8192],
           cc4_make_allocing_fn_result one_entry_map_16 cc4_dummy_true_ptr)"
    by (simp add: cc4_eval)
  have e3: "cc4_map_shrink one_entry_map_16 4 4 cc4_hash_size_t (3 / 4)
      (realloc_at 8192 junk_bucket) =
     Some ([Realloc 112 :: string event, Free 12288],
           cc4_make_allocing_fn_result one_entry_map cc4_dummy_true_ptr)"
    by (simp add: cc4_eval)
  have e4: "cc4_map_shrink empty_map_8 4 4 cc4_hash_size_t (3 / 4) realloc_fails =
     Some ([Free 8192 :: string event],
           cc4_make_allocing_fn_result cc4_map_placeholder cc4_dummy_true_ptr)"
    by (simp add: cc4_eval)
  have nz: "other_ptr (cc4_make_allocing_fn_result X cc4_dummy_true_ptr) \<noteq> 0"
    for X :: "(nat, nat) cc4_map"
    by (simp add: cc4_make_allocing_fn_result_def cc4_dummy_true_ptr_def)
  have s: "cc4_map_cap (cc4_map_placeholder :: (nat, nat) cc4_map) < cc4_map_cap empty_map_8"
    "cc4_map_r_end empty_map_8 = 8192"
    "cc4_map_end empty_map_8 4 4 = cc4_map_el 8192 8 4 4"
    "cc4_map_r_end (cc4_map_placeholder :: (nat, nat) cc4_map) = 4096"
    "cc4_map_cap one_entry_map < cc4_map_cap one_entry_map_16"
    "cc4_map_r_end one_entry_map = 8192"
    "cc4_map_r_end one_entry_map_16 = 12288"
    "cc4_map_end one_entry_map 4 4 = cc4_map_el 8192 8 4 4"
    "cc4_map_end one_entry_map_16 4 4 = cc4_map_el 12288 16 4 4"
    "cc4_map_cap one_entry_map \<noteq> 0"
    "cc4_map_size empty_map_8 = 0"
    "cc4_map_cap (cc4_map_placeholder :: (nat, nat) cc4_map) = 0"
    "cc4_map_end (cc4_map_placeholder :: (nat, nat) cc4_map) 4 4 =
       cc4_map_el cc4_map_placeholder_addr 0 4 4"
    by (simp_all add: cc4_eval)
  note t1 = rehash_sentinels[OF nz, THEN conjunct1, THEN mp, OF e1]
  note t2 = rehash_sentinels[OF nz, THEN conjunct1, THEN mp, OF e2]
  note t3 = rehash_sentinels[OF nz, THEN conjunct2, THEN mp, OF e3]
  note t4 = rehash_sentinels[OF nz, THEN conjunct2, THEN mp, OF e4]
  from t1 t2 t3 t4 e1 e2 e3 e4 s show ?thesis by blast
qed

section \<open>Lookup under the invariant\<close>

lemma suc_mod_inj:
  assumes "x < n" "y < n" "(x + 1) mod n = (y + 1) mod n"
  shows "x = (y::nat)"
proof -
  have "(x + 1) mod n = (if x + 1 = n then 0 else x + 1)" using assms(1) by auto
  moreover have "(y + 1) mod n = (if y + 1 = n then 0 else y + 1)" using assms(2) by auto
  ultimately show ?thesis using assms(3) by (auto split: if_splits)
qed

lemma slot_suc: "((a mod n) + 1) mod n = (a + 1) mod (n::nat)"
  by (simp add: mod_Suc_eq)

lemma chain_le:
  fixes f :: "nat \<Rightarrow> nat"
  assumes "\<And>x. x < n \<Longrightarrow> f ((x + 1) mod n) \<le> f x + 1" "0 < n"
  shows "f ((a + d) mod n) \<le> f (a mod n) + d"
proof (induction d)
  case 0
  then show ?case by simp
next
  case (Suc d)
  have "f ((a + Suc d) mod n) = f (((a + d) mod n + 1) mod n)"
    by (simp add: mod_Suc_eq)
  also have "\<dots> \<le> f ((a + d) mod n) + 1"
    using assms by simp
  finally show ?case using Suc by simp
qed

lemma shape_ok_pos:
  assumes "shape_ok cntr" "0 < hdr_cap cntr"
  shows "length (buckets cntr) = hdr_cap cntr" "hdr_cap cntr \<le> 2 ^ 31"
    "next_bucket (hdr_cap cntr) i = (i + 1) mod hdr_cap cntr"
    "home_bucket (hdr_cap cntr) h = h mod hdr_cap cntr"
proof -
  from assms obtain j where j: "j \<le> 31" "hdr_cap cntr = 2 ^ j"
    by (auto simp: shape_ok_def)
  show "length (buckets cntr) = hdr_cap cntr" using assms by (simp add: shape_ok_def)
  have "(2::nat) ^ j \<le> 2 ^ 31" using j(1) by (intro power_increasing) auto
  then show "hdr_cap cntr \<le> 2 ^ 31" using j(2) by simp
  show "next_bucket (hdr_cap cntr) i = (i + 1) mod hdr_cap cntr"
    using j by (simp add: next_bucket_pow2)
  show "home_bucket (hdr_cap cntr) h = h mod hdr_cap cntr"
    using j by (simp add: home_bucket_pow2)
qed

lemma rh_invD:
  assumes "rh_inv hash cntr"
  shows "shape_ok cntr" "size_ok cntr" "homes_ok hash cntr" "order_ok cntr" "keys_distinct cntr"
  using assms by (simp_all add: rh_inv_def)

lemma get_loop_found:
  assumes inv: "rh_inv hash cntr" and cm: "cmpr_ok cmpr"
    and x: "x < hdr_cap cntr" "pl cntr x \<noteq> 0" "bkt_key (buckets cntr ! x) = k"
    and m: "m < pl cntr x"
  shows "get_loop cntr k el_size layout cmpr ((hash k + m) mod hdr_cap cntr) (Suc m) =
           Some (cc4_map_el (hndl cntr) x el_size layout)"
  using m
proof (induction "pl cntr x - Suc m" arbitrary: m rule: less_induct)
  case (less m)
  define n where "n = hdr_cap cntr"
  define s where "s = (hash k + m) mod n"
  have n_pos: "0 < n" using x(1) by (simp add: n_def)
  note sh = shape_ok_pos[OF rh_invD(1)[OF inv] n_pos[unfolded n_def], folded n_def]
  have s_lt: "s < n" using n_pos by (simp add: s_def)
  have hx: "pl cntr x \<le> n" "(hash k + (pl cntr x - 1)) mod n = x"
    using rh_invD(3)[OF inv] x by (auto simp: homes_ok_def n_def)
  have ord: "\<And>y. y < n \<Longrightarrow> pl cntr ((y + 1) mod n) \<le> pl cntr y + 1"
    using rh_invD(4)[OF inv] by (simp add: order_ok_def n_def)
  have "hash k + m + (pl cntr x - Suc m) = hash k + (pl cntr x - 1)"
    using less.prems by simp
  with chain_le[of n "pl cntr" "hash k + m" "pl cntr x - Suc m", OF ord n_pos] hx(2)
  have "pl cntr x \<le> pl cntr s + (pl cntr x - Suc m)" by (simp add: s_def)
  then have ge: "Suc m \<le> pl cntr s" using less.prems by simp
  have last: "s = x" if "Suc m = pl cntr x"
    using hx(2) unfolding that[symmetric] by (simp add: s_def)
  have uniq: "s = x" if "bkt_key (buckets cntr ! s) = k"
    using rh_invD(5)[OF inv] that x s_lt ge by (auto simp: keys_distinct_def n_def)
  show ?case
  proof (cases "Suc m = pl cntr s \<and> cmpr (bkt_key (buckets cntr ! s)) k = 0")
    case True
    then have "s = x" using uniq cm by (simp add: cmpr_ok_def)
    with True s_lt ge show ?thesis
      by (subst get_loop.simps) (simp add: sh s_def[symmetric] n_def[symmetric])
  next
    case False
    have lt: "Suc m < pl cntr x"
    proof (rule ccontr)
      assume "\<not> Suc m < pl cntr x"
      then have e: "Suc m = pl cntr x" using less.prems by simp
      from last[OF e] e x(3) False cm show False by (simp add: cmpr_ok_def)
    qed
    have "Suc (Suc m) < 2 ^ 32" using lt hx(1) sh(2) by simp
    then have pt: "probelen_ty (Suc m + 1) = Suc (Suc m)" by (simp add: probelen_ty_def)
    have nx: "(s + 1) mod n = (hash k + Suc m) mod n"
      by (simp add: s_def mod_Suc_eq)
    have "get_loop cntr k el_size layout cmpr ((hash k + Suc m) mod n) (Suc (Suc m)) =
            Some (cc4_map_el (hndl cntr) x el_size layout)"
      using less.hyps[of "Suc m"] lt less.prems by (simp add: n_def)
    with False s_lt ge pt nx show ?thesis
      by (subst get_loop.simps) (auto simp: sh s_def[symmetric] n_def[symmetric])
  qed
qed

lemma get_loop_absent:
  assumes inv: "rh_inv hash cntr" and cm: "cmpr_ok cmpr"
    and nk: "\<not> has_key cntr k"
    and i: "i < hdr_cap cntr" and c: "1 \<le> c" "c \<le> hdr_cap cntr + 1"
  shows "get_loop cntr k el_size layout cmpr i c = Some 0"
  using i c
proof (induction "hdr_cap cntr + 1 - c" arbitrary: i c rule: less_induct)
  case (less c i)
  define n where "n = hdr_cap cntr"
  have n_pos: "0 < n" using less.prems(1) by (simp add: n_def)
  note sh = shape_ok_pos[OF rh_invD(1)[OF inv] n_pos[unfolded n_def], folded n_def]
  have i_lt: "i < n" using less.prems by (simp add: n_def)
  have pln: "pl cntr i \<le> n"
    using rh_invD(3)[OF inv] i_lt by (auto simp: homes_ok_def n_def)
  show ?case
  proof (cases "c \<le> pl cntr i")
    case False
    with i_lt show ?thesis
      by (subst get_loop.simps) (simp add: sh n_def[symmetric])
  next
    case True
    then have occ: "pl cntr i \<noteq> 0" using less.prems(2) by simp
    with nk i_lt have "bkt_key (buckets cntr ! i) \<noteq> k"
      by (auto simp: has_key_def n_def)
    then have ne: "cmpr (bkt_key (buckets cntr ! i)) k \<noteq> 0" using cm by (simp add: cmpr_ok_def)
    have "c + 1 < 2 ^ 32" using True pln sh(2) by simp
    then have pt: "probelen_ty (c + 1) = c + 1" by (simp add: probelen_ty_def)
    have "get_loop cntr k el_size layout cmpr ((i + 1) mod n) (c + 1) = Some 0"
      using less.hyps[of "c + 1" "(i + 1) mod n"] True pln n_pos less.prems
      by (simp add: n_def)
    with True ne i_lt pt show ?thesis
      by (subst get_loop.simps) (simp add: sh n_def[symmetric])
  qed
qed

section \<open>Insertion under the invariant\<close>

lemma carry_place:
  fixes e :: 'v and cntr :: "('k, 'v) cc4_map"
  assumes ci: "carry_inv hash cntr i k c" and emp: "pl cntr i = 0"
  defines "cntr' \<equiv> cntr\<lparr>buckets := (buckets cntr)
                 [i := \<lparr>bkt_el = e, bkt_key = k, bkt_probelen = c\<rparr>]\<rparr>"
  shows "rh_inv hash cntr'"
    and "holds cntr' k' v' \<longleftrightarrow> holds cntr k' v' \<or> (k' = k \<and> v' = e)"
proof -
  define n where "n = hdr_cap cntr"
  have len: "length (buckets cntr) = n" and i: "i < n" and c: "1 \<le> c" "c \<le> n"
    and hm: "(hash k + (c - 1)) mod n = i"
    using ci by (auto simp: carry_inv_def n_def)
  have n': "hdr_cap cntr' = n" "length (buckets cntr') = n"
    by (simp_all add: cntr'_def n_def len)
  have pl': "\<And>x. x < n \<Longrightarrow> pl cntr' x = (if x = i then c else pl cntr x)"
    by (simp add: cntr'_def len nth_list_update)
  have key': "\<And>x. x < n \<Longrightarrow> x \<noteq> i \<Longrightarrow> buckets cntr' ! x = buckets cntr ! x"
    by (simp add: cntr'_def len)
  have bi: "buckets cntr' ! i = \<lparr>bkt_el = e, bkt_key = k, bkt_probelen = c\<rparr>"
    using i by (simp add: cntr'_def len)
  have shape: "shape_ok cntr'"
    using ci by (auto simp: shape_ok_def carry_inv_def cntr'_def)
  have "{x. x < n \<and> pl cntr' x \<noteq> 0} = insert i {x. x < n \<and> pl cntr x \<noteq> 0}"
    using i c pl' by auto
  moreover have "i \<notin> {x. x < n \<and> pl cntr x \<noteq> 0}" using emp by simp
  ultimately have "card {x. x < n \<and> pl cntr' x \<noteq> 0} = Suc (card {x. x < n \<and> pl cntr x \<noteq> 0})"
    by simp
  then have sz: "size_ok cntr'"
    using ci by (simp add: size_ok_def n' carry_inv_def n_def[symmetric] cntr'_def)
  have homes: "homes_ok hash cntr'"
    unfolding homes_ok_def n'
  proof (intro allI impI)
    fix x assume x: "x < n"
    show "pl cntr' x \<le> n \<and> (pl cntr' x \<noteq> 0 \<longrightarrow>
            (hash (bkt_key (buckets cntr' ! x)) + (pl cntr' x - 1)) mod n = x)"
    proof (cases "x = i")
      case True
      then show ?thesis using c hm bi by simp
    next
      case False
      then show ?thesis
        using ci x key'[OF x False] by (auto simp: carry_inv_def homes_ok_def n_def)
    qed
  qed
  have ex: "\<And>x. x < n \<Longrightarrow> (x + 1) mod n = i \<Longrightarrow> c \<le> pl cntr x + 1"
    and nex: "\<And>x. x < n \<Longrightarrow> (x + 1) mod n \<noteq> i \<Longrightarrow> pl cntr ((x + 1) mod n) \<le> pl cntr x + 1"
    using ci by (auto simp: carry_inv_def n_def)
  have order: "order_ok cntr'"
    unfolding order_ok_def n'
  proof (intro allI impI)
    fix x assume x: "x < n"
    then have y: "(x + 1) mod n < n" by simp
    show "pl cntr' ((x + 1) mod n) \<le> pl cntr' x + 1"
    proof (cases "(x + 1) mod n = i")
      case True
      with ex[OF x True] show ?thesis using pl'[OF x] pl'[OF y] by auto
    next
      case False
      with nex[OF x False] show ?thesis using pl'[OF x] pl'[OF y] emp by auto
    qed
  qed
  have nk: "\<And>x. x < n \<Longrightarrow> pl cntr x \<noteq> 0 \<Longrightarrow> bkt_key (buckets cntr ! x) \<noteq> k"
    using ci by (auto simp: carry_inv_def has_key_def n_def)
  have kd: "\<And>x y. x < n \<Longrightarrow> y < n \<Longrightarrow> pl cntr x \<noteq> 0 \<Longrightarrow> pl cntr y \<noteq> 0 \<Longrightarrow>
              bkt_key (buckets cntr ! x) = bkt_key (buckets cntr ! y) \<Longrightarrow> x = y"
    using ci by (auto simp: carry_inv_def keys_distinct_def n_def)
  have keys: "keys_distinct cntr'"
    unfolding keys_distinct_def n'
  proof (intro allI impI)
    fix x y assume x: "x < n" and y: "y < n"
      and h: "pl cntr' x \<noteq> 0 \<and> pl cntr' y \<noteq> 0 \<and>
              bkt_key (buckets cntr' ! x) = bkt_key (buckets cntr' ! y)"
    show "x = y"
    proof (cases "x = i")
      case xi: True
      show ?thesis
      proof (cases "y = i")
        case True
        with xi show ?thesis by simp
      next
        case False
        with h xi nk[OF y] pl'[OF y] key'[OF y False] bi show ?thesis by auto
      qed
    next
      case xi: False
      show ?thesis
      proof (cases "y = i")
        case True
        with h xi nk[OF x] pl'[OF x] key'[OF x xi] bi show ?thesis by auto
      next
        case False
        with h xi kd[OF x y] pl'[OF x] pl'[OF y] key'[OF x xi] key'[OF y False]
        show ?thesis by auto
      qed
    qed
  qed
  show "rh_inv hash cntr'"
    using shape sz homes order keys by (simp add: rh_inv_def)
  show "holds cntr' k' v' \<longleftrightarrow> holds cntr k' v' \<or> (k' = k \<and> v' = e)"
  proof
    assume "holds cntr' k' v'"
    then obtain x where x: "x < n" "pl cntr' x \<noteq> 0" "bkt_key (buckets cntr' ! x) = k'"
      "bkt_el (buckets cntr' ! x) = v'" by (auto simp: holds_def n')
    show "holds cntr k' v' \<or> (k' = k \<and> v' = e)"
    proof (cases "x = i")
      case True
      with x bi show ?thesis by simp
    next
      case False
      with x pl'[OF x(1)] key'[OF x(1) False] have "holds cntr k' v'"
        by (auto simp: holds_def n_def)
      then show ?thesis ..
    qed
  next
    assume "holds cntr k' v' \<or> (k' = k \<and> v' = e)"
    then show "holds cntr' k' v'"
    proof
      assume "holds cntr k' v'"
      then obtain x where x: "x < n" "pl cntr x \<noteq> 0" "bkt_key (buckets cntr ! x) = k'"
        "bkt_el (buckets cntr ! x) = v'" by (auto simp: holds_def n_def)
      then have "x \<noteq> i" using emp by auto
      with x pl'[OF x(1)] key'[OF x(1)] show ?thesis
        by (auto simp: holds_def n')
    next
      assume "k' = k \<and> v' = e"
      with i c bi pl'[OF i] show ?thesis
        by (auto simp: holds_def n')
    qed
  qed
qed


lemma carry_invD:
  assumes "carry_inv hash cntr i k c"
  shows "length (buckets cntr) = hdr_cap cntr" "\<exists>j\<le>31. hdr_cap cntr = 2 ^ j"
    "i < hdr_cap cntr"
    "hdr_size cntr = Suc (card {x. x < hdr_cap cntr \<and> pl cntr x \<noteq> 0})"
    "homes_ok hash cntr" "keys_distinct cntr" "\<not> has_key cntr k"
    "1 \<le> c" "c \<le> hdr_cap cntr" "(hash k + (c - 1)) mod hdr_cap cntr = i"
    "\<And>x. x < hdr_cap cntr \<Longrightarrow> (x + 1) mod hdr_cap cntr \<noteq> i \<Longrightarrow>
        pl cntr ((x + 1) mod hdr_cap cntr) \<le> pl cntr x + 1"
    "\<And>x. x < hdr_cap cntr \<Longrightarrow> (x + 1) mod hdr_cap cntr = i \<Longrightarrow> c \<le> pl cntr x + 1"
    "pl cntr i \<le> c"
  using assms by (auto simp: carry_inv_def)

lemma carry_invI:
  assumes "length (buckets cntr) = hdr_cap cntr" "\<exists>j\<le>31. hdr_cap cntr = 2 ^ j"
    "i < hdr_cap cntr"
    "hdr_size cntr = Suc (card {x. x < hdr_cap cntr \<and> pl cntr x \<noteq> 0})"
    "homes_ok hash cntr" "keys_distinct cntr" "\<not> has_key cntr k"
    "1 \<le> c" "c \<le> hdr_cap cntr" "(hash k + (c - 1)) mod hdr_cap cntr = i"
    "\<And>x. x < hdr_cap cntr \<Longrightarrow> (x + 1) mod hdr_cap cntr \<noteq> i \<Longrightarrow>
        pl cntr ((x + 1) mod hdr_cap cntr) \<le> pl cntr x + 1"
    "\<And>x. x < hdr_cap cntr \<Longrightarrow> (x + 1) mod hdr_cap cntr = i \<Longrightarrow> c \<le> pl cntr x + 1"
    "pl cntr i \<le> c"
  shows "carry_inv hash cntr i k c"
  unfolding carry_inv_def using assms by blast

lemma home_step:
  assumes "1 \<le> c" "(h + (c - 1)) mod n = (i::nat)"
  shows "(h + (c + 1 - 1)) mod n = (i + 1) mod n"
proof -
  from assms(1) obtain q where q: "c = Suc q" by (cases c) auto
  with assms(2) have "(h + q) mod n = i" by simp
  then have "(i + 1) mod n = Suc ((h + q) mod n) mod n" by simp
  also have "\<dots> = Suc (h + q) mod n" by (rule mod_Suc_eq)
  finally show ?thesis using q by simp
qed

lemma carry_skip:
  assumes ci: "carry_inv hash cntr i k c" and ge: "c \<le> pl cntr i"
    and cn: "c < hdr_cap cntr" and n2: "(i + 1) mod hdr_cap cntr \<noteq> i"
  shows "carry_inv hash cntr ((i + 1) mod hdr_cap cntr) k (c + 1)"
proof -
  define n where "n = hdr_cap cntr"
  note d = carry_invD[OF ci, folded n_def]
  have n_pos: "0 < n" using d(3) by simp
  show ?thesis
    unfolding n_def[symmetric]
  proof (rule carry_invI[where cntr = cntr, folded n_def])
    show "length (buckets cntr) = n" "\<exists>j\<le>31. n = 2 ^ j"
      "hdr_size cntr = Suc (card {x. x < n \<and> pl cntr x \<noteq> 0})"
      "homes_ok hash cntr" "keys_distinct cntr" "\<not> has_key cntr k"
      by (rule d)+
    show "(i + 1) mod n < n" using n_pos by simp
    show "1 \<le> c + 1" by simp
    show "c + 1 \<le> n" using cn by (simp add: n_def)
    show "(hash k + (c + 1 - 1)) mod n = (i + 1) mod n"
      using d(8) d(10) by (rule home_step)
    show "pl cntr ((x + 1) mod n) \<le> pl cntr x + 1"
      if x: "x < n" and ne: "(x + 1) mod n \<noteq> (i + 1) mod n" for x
    proof (cases "(x + 1) mod n = i")
      case True
      with d(12)[OF x True] d(13) show ?thesis by simp
    next
      case False
      with d(11)[OF x False] show ?thesis by simp
    qed
    show "c + 1 \<le> pl cntr x + 1" if x: "x < n" and e: "(x + 1) mod n = (i + 1) mod n" for x
    proof -
      have "x = i" using suc_mod_inj[OF x d(3) e] .
      with ge show ?thesis by simp
    qed
    show "pl cntr ((i + 1) mod n) \<le> c + 1"
      using d(11)[OF d(3)] n2 d(13) by (simp add: n_def)
  qed
qed


lemma carry_swap:
  fixes e :: 'v and cntr :: "('k, 'v) cc4_map"
  assumes ci: "carry_inv hash cntr i k c" and occ: "pl cntr i \<noteq> 0" and lt: "pl cntr i < c"
    and n2: "(i + 1) mod hdr_cap cntr \<noteq> i"
  defines "cntr' \<equiv> cntr\<lparr>buckets := (buckets cntr)
                 [i := \<lparr>bkt_el = e, bkt_key = k, bkt_probelen = c\<rparr>]\<rparr>"
  shows "carry_inv hash cntr' ((i + 1) mod hdr_cap cntr) (bkt_key (buckets cntr ! i))
           (pl cntr i + 1)"
    and "holds cntr' k' v' \<or> (k' = bkt_key (buckets cntr ! i) \<and> v' = bkt_el (buckets cntr ! i))
           \<longleftrightarrow> holds cntr k' v' \<or> (k' = k \<and> v' = e)"
proof -
  define n where "n = hdr_cap cntr"
  note d = carry_invD[OF ci, folded n_def]
  have n_pos: "0 < n" using d(3) by simp
  have i: "i < n" by (rule d(3))
  have n': "hdr_cap cntr' = n" "length (buckets cntr') = n"
    by (simp_all add: cntr'_def n_def d(1))
  have pl': "\<And>x. x < n \<Longrightarrow> pl cntr' x = (if x = i then c else pl cntr x)"
    by (simp add: cntr'_def d(1) nth_list_update)
  have key': "\<And>x. x < n \<Longrightarrow> x \<noteq> i \<Longrightarrow> buckets cntr' ! x = buckets cntr ! x"
    by (simp add: cntr'_def d(1))
  have bi: "buckets cntr' ! i = \<lparr>bkt_el = e, bkt_key = k, bkt_probelen = c\<rparr>"
    using i by (simp add: cntr'_def d(1))
  have nk: "\<And>x. x < n \<Longrightarrow> pl cntr x \<noteq> 0 \<Longrightarrow> bkt_key (buckets cntr ! x) \<noteq> k"
    using d(7) by (auto simp: has_key_def n_def)
  have kd: "\<And>x y. x < n \<Longrightarrow> y < n \<Longrightarrow> pl cntr x \<noteq> 0 \<Longrightarrow> pl cntr y \<noteq> 0 \<Longrightarrow>
              bkt_key (buckets cntr ! x) = bkt_key (buckets cntr ! y) \<Longrightarrow> x = y"
    using d(6) by (auto simp: keys_distinct_def n_def)
  have hm: "\<And>x. x < n \<Longrightarrow> pl cntr x \<le> n \<and> (pl cntr x \<noteq> 0 \<longrightarrow>
              (hash (bkt_key (buckets cntr ! x)) + (pl cntr x - 1)) mod n = x)"
    using d(5) by (auto simp: homes_ok_def n_def)
  have i': "(i + 1) mod n < n" using n_pos by simp
  have ii': "(i + 1) mod n \<noteq> i" using n2 by (simp add: n_def)
  show "carry_inv hash cntr' ((i + 1) mod hdr_cap cntr) (bkt_key (buckets cntr ! i))
           (pl cntr i + 1)"
    unfolding n_def[symmetric]
  proof (rule carry_invI[where cntr = cntr', unfolded n'])
    show "n = n" ..
    show "\<exists>j\<le>31. n = 2 ^ j" by (rule d(2))
    show "(i + 1) mod n < n" by (rule i')
    have "{x. x < n \<and> pl cntr' x \<noteq> 0} = {x. x < n \<and> pl cntr x \<noteq> 0}"
      using pl' occ d(8) by (auto split: if_splits)
    then show "hdr_size cntr' = Suc (card {x. x < n \<and> pl cntr' x \<noteq> 0})"
      using d(4) by (simp add: cntr'_def)
    show "homes_ok hash cntr'"
      unfolding homes_ok_def n'
    proof (intro allI impI)
      fix x assume x: "x < n"
      show "pl cntr' x \<le> n \<and> (pl cntr' x \<noteq> 0 \<longrightarrow>
              (hash (bkt_key (buckets cntr' ! x)) + (pl cntr' x - 1)) mod n = x)"
      proof (cases "x = i")
        case True
        then show ?thesis using d(8) d(9) d(10) bi by simp
      next
        case False
        then show ?thesis using hm[OF x] key'[OF x False] by simp
      qed
    qed
    show "keys_distinct cntr'"
      unfolding keys_distinct_def n'
    proof (intro allI impI)
      fix x y assume x: "x < n" and y: "y < n"
        and h: "pl cntr' x \<noteq> 0 \<and> pl cntr' y \<noteq> 0 \<and>
                bkt_key (buckets cntr' ! x) = bkt_key (buckets cntr' ! y)"
      show "x = y"
      proof (cases "x = i")
        case xi: True
        show ?thesis
        proof (cases "y = i")
          case True
          with xi show ?thesis by simp
        next
          case False
          with h xi nk[OF y] pl'[OF y] key'[OF y False] bi show ?thesis by auto
        qed
      next
        case xi: False
        show ?thesis
        proof (cases "y = i")
          case True
          with h xi nk[OF x] pl'[OF x] key'[OF x xi] bi show ?thesis by auto
        next
          case False
          with h xi kd[OF x y] pl'[OF x] pl'[OF y] key'[OF x xi] key'[OF y False]
          show ?thesis by auto
        qed
      qed
    qed
    show "\<not> has_key cntr' (bkt_key (buckets cntr ! i))"
    proof
      assume "has_key cntr' (bkt_key (buckets cntr ! i))"
      then obtain x where x: "x < n" "pl cntr' x \<noteq> 0"
        "bkt_key (buckets cntr' ! x) = bkt_key (buckets cntr ! i)"
        by (auto simp: has_key_def n')
      show False
      proof (cases "x = i")
        case True
        with x(3) bi nk[OF i occ] show False by simp
      next
        case False
        with x pl'[OF x(1)] key'[OF x(1) False] kd[OF x(1) i _ occ] show False by auto
      qed
    qed
    show "1 \<le> pl cntr i + 1" by simp
    show "pl cntr i + 1 \<le> n" using lt d(9) by simp
    show "(hash (bkt_key (buckets cntr ! i)) + (pl cntr i + 1 - 1)) mod n = (i + 1) mod n"
    proof (rule home_step)
      show "1 \<le> pl cntr i" using occ by simp
      show "(hash (bkt_key (buckets cntr ! i)) + (pl cntr i - 1)) mod n = i"
        using hm[OF i] occ by simp
    qed
    show "pl cntr' ((x + 1) mod n) \<le> pl cntr' x + 1"
      if x: "x < n" and ne: "(x + 1) mod n \<noteq> (i + 1) mod n" for x
    proof -
      have xi: "x \<noteq> i" using ne by auto
      have y: "(x + 1) mod n < n" using n_pos by simp
      show ?thesis
      proof (cases "(x + 1) mod n = i")
        case True
        with d(12)[OF x True] pl'[OF x] pl'[OF y] xi show ?thesis by simp
      next
        case False
        with d(11)[OF x False] pl'[OF x] pl'[OF y] xi show ?thesis by simp
      qed
    qed
    show "pl cntr i + 1 \<le> pl cntr' x + 1"
      if x: "x < n" and e: "(x + 1) mod n = (i + 1) mod n" for x
    proof -
      have "x = i" using suc_mod_inj[OF x i e] .
      with pl'[OF i] lt show ?thesis by simp
    qed
    show "pl cntr' ((i + 1) mod n) \<le> pl cntr i + 1"
      using d(11)[OF i ii'] pl'[OF i'] ii' by simp
  qed
  show "holds cntr' k' v' \<or> (k' = bkt_key (buckets cntr ! i) \<and> v' = bkt_el (buckets cntr ! i))
           \<longleftrightarrow> holds cntr k' v' \<or> (k' = k \<and> v' = e)"
  proof
    assume "holds cntr' k' v' \<or>
            (k' = bkt_key (buckets cntr ! i) \<and> v' = bkt_el (buckets cntr ! i))"
    then show "holds cntr k' v' \<or> (k' = k \<and> v' = e)"
    proof
      assume "holds cntr' k' v'"
      then obtain x where x: "x < n" "pl cntr' x \<noteq> 0" "bkt_key (buckets cntr' ! x) = k'"
        "bkt_el (buckets cntr' ! x) = v'" by (auto simp: holds_def n')
      show ?thesis
      proof (cases "x = i")
        case True
        with x bi show ?thesis by simp
      next
        case False
        with x pl'[OF x(1)] key'[OF x(1) False] have "holds cntr k' v'"
          by (auto simp: holds_def n_def)
        then show ?thesis ..
      qed
    next
      assume "k' = bkt_key (buckets cntr ! i) \<and> v' = bkt_el (buckets cntr ! i)"
      with i occ have "holds cntr k' v'" by (auto simp: holds_def n_def)
      then show ?thesis ..
    qed
  next
    assume "holds cntr k' v' \<or> (k' = k \<and> v' = e)"
    then show "holds cntr' k' v' \<or>
               (k' = bkt_key (buckets cntr ! i) \<and> v' = bkt_el (buckets cntr ! i))"
    proof
      assume "holds cntr k' v'"
      then obtain x where x: "x < n" "pl cntr x \<noteq> 0" "bkt_key (buckets cntr ! x) = k'"
        "bkt_el (buckets cntr ! x) = v'" by (auto simp: holds_def n_def)
      show ?thesis
      proof (cases "x = i")
        case True
        with x show ?thesis by simp
      next
        case False
        with x pl'[OF x(1)] key'[OF x(1) False] have "holds cntr' k' v'"
          by (auto simp: holds_def n')
        then show ?thesis ..
      qed
    next
      assume "k' = k \<and> v' = e"
      with i d(8) bi pl'[OF i] have "holds cntr' k' v'"
        by (auto simp: holds_def n')
      then show ?thesis ..
    qed
  qed
qed


lemma add_mod_ne:
  assumes "i < n" "0 < m" "m < (n::nat)"
  shows "(i + m) mod n \<noteq> i"
proof (cases "i + m < n")
  case True
  then show ?thesis using assms by simp
next
  case False
  then have "(i + m) mod n = i + m - n"
    using assms by (simp add: le_mod_geq)
  then show ?thesis using assms False by simp
qed

lemma pow2_cap_facts:
  assumes "\<exists>j\<le>31. cap = (2::nat) ^ j"
  shows "cap \<le> 2 ^ 31" "0 < cap" "next_bucket cap x = (x + 1) mod cap"
    "home_bucket cap h = h mod cap"
proof -
  from assms obtain j where j: "j \<le> 31" "cap = 2 ^ j" by blast
  have "(2::nat) ^ j \<le> 2 ^ 31" using j(1) by (intro power_increasing) auto
  then show "cap \<le> 2 ^ 31" using j(2) by simp
  show "0 < cap" using j(2) by simp
  show "next_bucket cap x = (x + 1) mod cap" using j by (simp add: next_bucket_pow2)
  show "home_bucket cap h = h mod cap" using j by (simp add: home_bucket_pow2)
qed

lemma insert_raw_inner_ok:
  fixes cntr :: "('k, 'v) cc4_map"
  assumes "carry_inv hash cntr i k c"
    and "pl cntr ((i + d) mod hdr_cap cntr) = 0"
    and "\<forall>m<d. pl cntr ((i + m) mod hdr_cap cntr) \<noteq> 0"
    and "c + d \<le> hdr_cap cntr"
  shows "\<exists>cntr'. insert_raw_inner cntr i e k c = Some cntr' \<and> rh_inv hash cntr' \<and>
           (\<forall>k' v'. holds cntr' k' v' \<longleftrightarrow> holds cntr k' v' \<or> (k' = k \<and> v' = e))"
  using assms
proof (induction d arbitrary: cntr i e k c)
  case 0
  note d = carry_invD[OF "0.prems"(1)]
  have emp: "pl cntr i = 0" using "0.prems"(2) d(3) by simp
  let ?c' = "cntr\<lparr>buckets := (buckets cntr)
                 [i := \<lparr>bkt_el = e, bkt_key = k, bkt_probelen = c\<rparr>]\<rparr>"
  have "insert_raw_inner cntr i e k c = Some ?c'"
    using emp d(1,3) by (subst insert_raw_inner.simps) simp
  with carry_place[OF "0.prems"(1) emp, of e] show ?case by simp
next
  case (Suc d)
  define n where "n = hdr_cap cntr"
  note ci = "Suc.prems"(1)
  note dd = carry_invD[OF ci, folded n_def]
  note pw = pow2_cap_facts[OF dd(2)]
  have i: "i < n" by (rule dd(3))
  have occm: "pl cntr ((i + m) mod n) \<noteq> 0" if "m < Suc d" for m
    using "Suc.prems"(3) that by (simp add: n_def)
  have occ: "pl cntr i \<noteq> 0"
    using occm[of 0] i by simp
  have dn: "Suc d < n" using "Suc.prems"(4) dd(8) by (simp add: n_def)
  have n2: "(i + 1) mod n \<noteq> i" using add_mod_ne[OF i _ , of 1] dn by simp
  have far: "(i + Suc m) mod n \<noteq> i" if "m \<le> d" for m
    using add_mod_ne[OF i, of "Suc m"] that dn by simp
  have shift: "((i + 1) mod n + m) mod n = (i + Suc m) mod n" for m
    by (simp add: mod_add_left_eq)
  show ?case
  proof (cases "pl cntr i < c")
    case True
    let ?c1 = "cntr\<lparr>buckets := (buckets cntr)
                 [i := \<lparr>bkt_el = e, bkt_key = k, bkt_probelen = c\<rparr>]\<rparr>"
    note sw = carry_swap[OF ci occ True n2[unfolded n_def], of e]
    have cap1: "hdr_cap ?c1 = n" by (simp add: n_def)
    have pl1: "pl ?c1 x = pl cntr x" if "x < n" "x \<noteq> i" for x
      using that by (simp add: dd(1))
    have z: "(i + Suc m) mod n < n" for m using pw(2) by (simp add: n_def)
    have a: "pl ?c1 (((i + 1) mod n + d) mod hdr_cap ?c1) = 0"
      unfolding cap1 shift
      using pl1[OF z far[OF le_refl]] "Suc.prems"(2)[folded n_def] by simp
    have b: "\<forall>m<d. pl ?c1 (((i + 1) mod n + m) mod hdr_cap ?c1) \<noteq> 0"
      unfolding cap1 shift
    proof (intro allI impI)
      fix m assume m: "m < d"
      then have "pl cntr ((i + Suc m) mod n) \<noteq> 0"
        using occm[of "Suc m"] by simp
      moreover have "m \<le> d" using m by simp
      ultimately show "pl ?c1 ((i + Suc m) mod n) \<noteq> 0"
        using pl1[OF z far] by simp
    qed
    have c: "pl cntr i + 1 + d \<le> hdr_cap ?c1"
      using True "Suc.prems"(4) by simp
    from Suc.IH[OF sw(1)[folded n_def] a b c, of "bkt_el (buckets cntr ! i)"]
    obtain cntr' where r:
      "insert_raw_inner ?c1 ((i + 1) mod n) (bkt_el (buckets cntr ! i))
         (bkt_key (buckets cntr ! i)) (pl cntr i + 1) = Some cntr'"
      "rh_inv hash cntr'"
      "\<forall>k' v'. holds cntr' k' v' \<longleftrightarrow> holds ?c1 k' v' \<or>
         (k' = bkt_key (buckets cntr ! i) \<and> v' = bkt_el (buckets cntr ! i))"
      by blast
    have "pl cntr i + 1 < 2 ^ 32" using True dd(9) pw(1) by simp
    then have pt: "probelen_ty (pl cntr i + 1) = pl cntr i + 1" by (simp add: probelen_ty_def)
    have "insert_raw_inner cntr i e k c = Some cntr'"
      using r(1) occ True i pt
      by (subst insert_raw_inner.simps) (simp add: dd(1) pw(3) n_def[symmetric])
    moreover have "\<forall>k' v'. holds cntr' k' v' \<longleftrightarrow> holds cntr k' v' \<or> (k' = k \<and> v' = e)"
      using r(3) sw(2) by simp
    ultimately show ?thesis using r(2) by blast
  next
    case False
    then have ge: "c \<le> pl cntr i" by simp
    have cn: "c < hdr_cap cntr" using "Suc.prems"(4) by simp
    note sk = carry_skip[OF ci ge cn n2[unfolded n_def]]
    have a: "pl cntr (((i + 1) mod n + d) mod hdr_cap cntr) = 0"
      unfolding n_def[symmetric] shift using "Suc.prems"(2)[folded n_def] .
    have b: "\<forall>m<d. pl cntr (((i + 1) mod n + m) mod hdr_cap cntr) \<noteq> 0"
      unfolding n_def[symmetric] shift
    proof (intro allI impI)
      fix m assume "m < d"
      then show "pl cntr ((i + Suc m) mod n) \<noteq> 0" using occm[of "Suc m"] by simp
    qed
    have c: "c + 1 + d \<le> hdr_cap cntr" using "Suc.prems"(4) by simp
    from Suc.IH[OF sk[folded n_def] a b c, of e]
    obtain cntr' where r:
      "insert_raw_inner cntr ((i + 1) mod n) e k (c + 1) = Some cntr'"
      "rh_inv hash cntr'"
      "\<forall>k' v'. holds cntr' k' v' \<longleftrightarrow> holds cntr k' v' \<or> (k' = k \<and> v' = e)"
      by blast
    have "c + 1 < 2 ^ 32" using cn pw(1) by (simp add: n_def)
    then have pt: "probelen_ty (c + 1) = c + 1" by (simp add: probelen_ty_def)
    have "insert_raw_inner cntr i e k c = Some cntr'"
      using r(1) occ False i pt
      by (subst insert_raw_inner.simps) (simp add: dd(1) pw(3) n_def[symmetric])
    with r(2,3) show ?thesis by blast
  qed
qed

lemma first_empty:
  fixes f :: "nat \<Rightarrow> nat"
  assumes "x < n" "f x = 0" "i < n"
  shows "\<exists>d<n. f ((i + d) mod n) = 0 \<and> (\<forall>m<d. f ((i + m) mod n) \<noteq> 0)"
proof -
  define d0 where "d0 = (x + n - i) mod n"
  have "(i + d0) mod n = (i + (x + n - i)) mod n"
    unfolding d0_def by (rule mod_add_right_eq)
  also have "\<dots> = (x + n) mod n" using assms(3) by simp
  also have "\<dots> = x" using assms(1) by simp
  finally have P0: "f ((i + d0) mod n) = 0" using assms(2) by simp
  define d where "d = (LEAST d. f ((i + d) mod n) = 0)"
  have Pd: "f ((i + d) mod n) = 0"
    unfolding d_def using P0 by (rule LeastI)
  have "d \<le> d0" unfolding d_def using P0 by (rule Least_le)
  moreover have "d0 < n" unfolding d0_def using assms(1) by simp
  ultimately have "d < n" by simp
  moreover have "\<forall>m<d. f ((i + m) mod n) \<noteq> 0"
    using not_less_Least[of _ "\<lambda>d. f ((i + d) mod n) = 0"] by (auto simp: d_def)
  ultimately show ?thesis using Pd by blast
qed

lemma card_occupied_le:
  "card {x. x < n \<and> P x} \<le> (n::nat)"
proof -
  have "card {x. x < n \<and> P x} \<le> card {..<n}"
    by (rule card_mono) auto
  then show ?thesis by simp
qed

lemma rh_inv_size_le:
  assumes "rh_inv hash cntr"
  shows "hdr_size cntr \<le> hdr_cap cntr"
  using rh_invD(2)[OF assms] card_occupied_le[of "hdr_cap cntr"]
  by (simp add: size_ok_def)

lemma rh_inv_empty_slot:
  assumes "rh_inv hash cntr" "hdr_size cntr < hdr_cap cntr"
  shows "\<exists>x<hdr_cap cntr. pl cntr x = 0"
proof (rule ccontr)
  assume "\<not> (\<exists>x<hdr_cap cntr. pl cntr x = 0)"
  then have "{x. x < hdr_cap cntr \<and> pl cntr x \<noteq> 0} = {..<hdr_cap cntr}" by auto
  then have "hdr_size cntr = hdr_cap cntr"
    using rh_invD(2)[OF assms(1)] by (simp add: size_ok_def)
  with assms(2) show False by simp
qed

lemma rh_inv_pow2:
  assumes "rh_inv hash cntr" "0 < hdr_cap cntr"
  shows "\<exists>j\<le>31. hdr_cap cntr = 2 ^ j"
  using rh_invD(1)[OF assms(1)] assms(2) by (auto simp: shape_ok_def)

lemma rh_inv_carry:
  assumes inv: "rh_inv hash cntr" and nk: "\<not> has_key cntr k"
    and i: "i < hdr_cap cntr" and c: "1 \<le> c" "c \<le> hdr_cap cntr"
    and hm: "(hash k + (c - 1)) mod hdr_cap cntr = i"
    and prev: "\<And>x. x < hdr_cap cntr \<Longrightarrow> (x + 1) mod hdr_cap cntr = i \<Longrightarrow> c \<le> pl cntr x + 1"
    and lt: "pl cntr i < c"
  shows "carry_inv hash (cntr\<lparr>hdr_size := size_t (hdr_size cntr + 1)\<rparr>) i k c"
proof -
  have pos: "0 < hdr_cap cntr" using i by simp
  note pw = pow2_cap_facts[OF rh_inv_pow2[OF inv pos]]
  have "hdr_size cntr + 1 < 2 ^ 64" using rh_inv_size_le[OF inv] pw(1) by simp
  then have sz: "size_t (hdr_size cntr + 1) = Suc (hdr_size cntr)" by (simp add: size_t_def)
  show ?thesis
  proof (rule carry_invI)
    show "hdr_size (cntr\<lparr>hdr_size := size_t (hdr_size cntr + 1)\<rparr>) =
          Suc (card {x. x < hdr_cap (cntr\<lparr>hdr_size := size_t (hdr_size cntr + 1)\<rparr>) \<and>
             pl (cntr\<lparr>hdr_size := size_t (hdr_size cntr + 1)\<rparr>) x \<noteq> 0})"
      using rh_invD(2)[OF inv] sz by (simp add: size_ok_def)
  qed (use inv nk i c hm prev lt rh_inv_pow2[OF inv pos] in
        \<open>auto simp: rh_inv_def shape_ok_def homes_ok_def keys_distinct_def has_key_def
           order_ok_def\<close>)
qed


lemma cc4_map_el_nonnull: "cc4_map_el h x el_size layout \<noteq> 0"
  by (simp add: cc4_map_el_def sizeof_map_hdr_def)

lemma insert_raw_inner_enter:
  fixes cntr :: "('k, 'v) cc4_map"
  assumes inv: "rh_inv hash cntr" and nk: "\<not> has_key cntr k"
    and i: "i < hdr_cap cntr" and c: "1 \<le> c"
    and hm: "(hash k + (c - 1)) mod hdr_cap cntr = i"
    and prev: "\<And>x. x < hdr_cap cntr \<Longrightarrow> (x + 1) mod hdr_cap cntr = i \<Longrightarrow> c \<le> pl cntr x + 1"
    and emp: "pl cntr ((i + d) mod hdr_cap cntr) = 0"
    and occ: "\<forall>m<d. pl cntr ((i + m) mod hdr_cap cntr) \<noteq> 0"
    and cd: "c + d \<le> hdr_cap cntr"
    and lt: "pl cntr i < c"
  shows "\<exists>cntr'.
           insert_raw_inner (cntr\<lparr>hdr_size := size_t (hdr_size cntr + 1)\<rparr>) i e k c = Some cntr' \<and>
           rh_inv hash cntr' \<and>
           (\<forall>k' v'. holds cntr' k' v' \<longleftrightarrow> holds cntr k' v' \<or> (k' = k \<and> v' = e)) \<and>
           hdr_size cntr' = hdr_size cntr + 1 \<and> hdr_cap cntr' = hdr_cap cntr \<and>
           hndl cntr' = hndl cntr"
proof -
  let ?c0 = "cntr\<lparr>hdr_size := size_t (hdr_size cntr + 1)\<rparr>"
  have pos: "0 < hdr_cap cntr" using i by simp
  note pw = pow2_cap_facts[OF rh_inv_pow2[OF inv pos]]
  have "hdr_size cntr + 1 < 2 ^ 64" using rh_inv_size_le[OF inv] pw(1) by simp
  then have sz: "size_t (hdr_size cntr + 1) = hdr_size cntr + 1" by (simp add: size_t_def)
  have cn: "c \<le> hdr_cap cntr" using cd by simp
  note carry = rh_inv_carry[OF inv nk i c cn hm prev lt]
  have emp0: "pl ?c0 ((i + d) mod hdr_cap ?c0) = 0" using emp by simp
  have occ0: "\<forall>m<d. pl ?c0 ((i + m) mod hdr_cap ?c0) \<noteq> 0" using occ by simp
  have cd0: "c + d \<le> hdr_cap ?c0" using cd by simp
  from insert_raw_inner_ok[OF carry emp0 occ0 cd0, of e]
  obtain cntr' where r: "insert_raw_inner ?c0 i e k c = Some cntr'" "rh_inv hash cntr'"
    "\<forall>k' v'. holds cntr' k' v' \<longleftrightarrow> holds ?c0 k' v' \<or> (k' = k \<and> v' = e)" by blast
  have h0: "holds ?c0 k' v' \<longleftrightarrow> holds cntr k' v'" for k' v'
    by (simp add: holds_def)
  from insert_raw_inner_frame[OF r(1)] sz
  have fr: "hndl cntr' = hndl cntr" "hdr_cap cntr' = hdr_cap cntr"
    "hdr_size cntr' = hdr_size cntr + 1" by simp_all
  show ?thesis using r fr h0 by simp
qed

lemma insert_raw_loop_new:
  fixes cntr :: "('k, 'v) cc4_map"
  assumes inv: "rh_inv hash cntr" and cm: "cmpr_ok cmpr" and nk: "\<not> has_key cntr k"
    and "i < hdr_cap cntr" "1 \<le> c"
    and "(hash k + (c - 1)) mod hdr_cap cntr = i"
    and "\<And>x. x < hdr_cap cntr \<Longrightarrow> (x + 1) mod hdr_cap cntr = i \<Longrightarrow> c \<le> pl cntr x + 1"
    and "pl cntr ((i + d) mod hdr_cap cntr) = 0"
    and "\<forall>m<d. pl cntr ((i + m) mod hdr_cap cntr) \<noteq> 0"
    and "c + d \<le> hdr_cap cntr"
  shows "\<exists>cntr' itr.
           insert_raw_loop cntr e k replace el_size layout cmpr el_dtor key_dtor i c =
             Some ([], cntr', itr) \<and> itr \<noteq> 0 \<and>
           rh_inv hash cntr' \<and>
           (\<forall>k' v'. holds cntr' k' v' \<longleftrightarrow> holds cntr k' v' \<or> (k' = k \<and> v' = e)) \<and>
           hdr_size cntr' = hdr_size cntr + 1 \<and> hdr_cap cntr' = hdr_cap cntr \<and>
           hndl cntr' = hndl cntr"
  using assms(4-)
proof (induction d arbitrary: i c)
  case (0 i c)
  define n where "n = hdr_cap cntr"
  have i: "i < n" using 0(1) by (simp add: n_def)
  note sh = shape_ok_pos[OF rh_invD(1)[OF inv], folded n_def]
  have lt: "pl cntr i < c" using 0(5) 0(2) i by (simp add: n_def)
  from insert_raw_inner_enter[OF inv nk 0(1,2,3,4,5,6,7) lt, of e]
  obtain cntr' where r:
    "insert_raw_inner (cntr\<lparr>hdr_size := size_t (hdr_size cntr + 1)\<rparr>) i e k c = Some cntr'"
    "rh_inv hash cntr'"
    "\<forall>k' v'. holds cntr' k' v' \<longleftrightarrow> holds cntr k' v' \<or> (k' = k \<and> v' = e)"
    "hdr_size cntr' = hdr_size cntr + 1" "hdr_cap cntr' = hdr_cap cntr" "hndl cntr' = hndl cntr"
    by blast
  have "insert_raw_loop cntr e k replace el_size layout cmpr el_dtor key_dtor i c =
          Some ([], cntr', cc4_map_el (hndl cntr) i el_size layout)"
    using r(1) lt i sh(1) by (subst insert_raw_loop.simps) simp
  with r cc4_map_el_nonnull show ?case by blast
next
  case (Suc d i c)
  define n where "n = hdr_cap cntr"
  have i: "i < n" using Suc.prems(1) by (simp add: n_def)
  have pos: "0 < n" using i by simp
  note sh = shape_ok_pos[OF rh_invD(1)[OF inv] pos[unfolded n_def], folded n_def]
  show ?case
  proof (cases "pl cntr i < c")
    case lt: True
    from insert_raw_inner_enter[OF inv nk Suc.prems(1,2,3,4,5,6,7) lt, of e]
    obtain cntr' where r:
      "insert_raw_inner (cntr\<lparr>hdr_size := size_t (hdr_size cntr + 1)\<rparr>) i e k c = Some cntr'"
      "rh_inv hash cntr'"
      "\<forall>k' v'. holds cntr' k' v' \<longleftrightarrow> holds cntr k' v' \<or> (k' = k \<and> v' = e)"
      "hdr_size cntr' = hdr_size cntr + 1" "hdr_cap cntr' = hdr_cap cntr"
      "hndl cntr' = hndl cntr"
      by blast
    have "insert_raw_loop cntr e k replace el_size layout cmpr el_dtor key_dtor i c =
            Some ([], cntr', cc4_map_el (hndl cntr) i el_size layout)"
      using r(1) lt i sh(1) by (subst insert_raw_loop.simps) simp
    with r cc4_map_el_nonnull show ?thesis by blast
  next
    case False
    then have ge: "c \<le> pl cntr i" by simp
    then have occ: "pl cntr i \<noteq> 0" using Suc.prems(2) by simp
    with nk i have "bkt_key (buckets cntr ! i) \<noteq> k" by (auto simp: has_key_def n_def)
    then have ne: "cmpr (bkt_key (buckets cntr ! i)) k \<noteq> 0" using cm by (simp add: cmpr_ok_def)
    have shift: "((i + 1) mod n + m) mod n = (i + Suc m) mod n" for m
      by (simp add: mod_add_left_eq)
    have a1: "(i + 1) mod n < hdr_cap cntr" using pos by (simp add: n_def)
    have a2: "1 \<le> c + 1" by simp
    have a3: "(hash k + (c + 1 - 1)) mod hdr_cap cntr = (i + 1) mod n"
      unfolding n_def[symmetric] using Suc.prems(2) Suc.prems(3)[folded n_def] by (rule home_step)
    have a4: "c + 1 \<le> pl cntr x + 1"
      if "x < hdr_cap cntr" "(x + 1) mod hdr_cap cntr = (i + 1) mod n" for x
    proof -
      have "x = i" using suc_mod_inj[of x n i] that i by (simp add: n_def)
      with ge show ?thesis by simp
    qed
    have a5: "pl cntr (((i + 1) mod n + d) mod hdr_cap cntr) = 0"
      unfolding n_def[symmetric] shift using Suc.prems(5)[folded n_def] .
    have a6: "\<forall>m<d. pl cntr (((i + 1) mod n + m) mod hdr_cap cntr) \<noteq> 0"
      unfolding n_def[symmetric] shift
    proof (intro allI impI)
      fix m assume "m < d"
      then show "pl cntr ((i + Suc m) mod n) \<noteq> 0"
        using Suc.prems(6)[rule_format, of "Suc m"] by (simp add: n_def)
    qed
    have a7: "c + 1 + d \<le> hdr_cap cntr" using Suc.prems(7) by simp
    from Suc.IH[OF a1 a2 a3 a4 a5 a6 a7]
    obtain cntr' itr where r:
      "insert_raw_loop cntr e k replace el_size layout cmpr el_dtor key_dtor
         ((i + 1) mod n) (c + 1) = Some ([], cntr', itr)" "itr \<noteq> 0"
      "rh_inv hash cntr'"
      "\<forall>k' v'. holds cntr' k' v' \<longleftrightarrow> holds cntr k' v' \<or> (k' = k \<and> v' = e)"
      "hdr_size cntr' = hdr_size cntr + 1" "hdr_cap cntr' = hdr_cap cntr"
      "hndl cntr' = hndl cntr"
      by blast
    have "c + 1 < 2 ^ 32" using Suc.prems(7) sh(2) by (simp add: n_def)
    then have pt: "probelen_ty (c + 1) = c + 1" by (simp add: probelen_ty_def)
    have "insert_raw_loop cntr e k replace el_size layout cmpr el_dtor key_dtor i c =
            Some ([], cntr', itr)"
      using r(1) False ne i pt
      by (subst insert_raw_loop.simps) (simp add: sh n_def[symmetric])
    with r show ?thesis by blast
  qed
qed

lemma insert_raw_unique_loop_new:
  fixes cntr :: "('k, 'v) cc4_map"
  assumes inv: "rh_inv hash cntr" and nk: "\<not> has_key cntr k"
    and "i < hdr_cap cntr" "1 \<le> c"
    and "(hash k + (c - 1)) mod hdr_cap cntr = i"
    and "\<And>x. x < hdr_cap cntr \<Longrightarrow> (x + 1) mod hdr_cap cntr = i \<Longrightarrow> c \<le> pl cntr x + 1"
    and "pl cntr ((i + d) mod hdr_cap cntr) = 0"
    and "\<forall>m<d. pl cntr ((i + m) mod hdr_cap cntr) \<noteq> 0"
    and "c + d \<le> hdr_cap cntr"
  shows "\<exists>cntr' itr.
           insert_raw_unique_loop cntr e k el_size layout i c =
             Some (cntr', itr) \<and> itr \<noteq> 0 \<and>
           rh_inv hash cntr' \<and>
           (\<forall>k' v'. holds cntr' k' v' \<longleftrightarrow> holds cntr k' v' \<or> (k' = k \<and> v' = e)) \<and>
           hdr_size cntr' = hdr_size cntr + 1 \<and> hdr_cap cntr' = hdr_cap cntr \<and>
           hndl cntr' = hndl cntr"
  using assms(3-)
proof (induction d arbitrary: i c)
  case (0 i c)
  define n where "n = hdr_cap cntr"
  have i: "i < n" using 0(1) by (simp add: n_def)
  note sh = shape_ok_pos[OF rh_invD(1)[OF inv], folded n_def]
  have lt: "pl cntr i < c" using 0(5) 0(2) i by (simp add: n_def)
  from insert_raw_inner_enter[OF inv nk 0(1,2,3,4,5,6,7) lt, of e]
  obtain cntr' where r:
    "insert_raw_inner (cntr\<lparr>hdr_size := size_t (hdr_size cntr + 1)\<rparr>) i e k c = Some cntr'"
    "rh_inv hash cntr'"
    "\<forall>k' v'. holds cntr' k' v' \<longleftrightarrow> holds cntr k' v' \<or> (k' = k \<and> v' = e)"
    "hdr_size cntr' = hdr_size cntr + 1" "hdr_cap cntr' = hdr_cap cntr" "hndl cntr' = hndl cntr"
    by blast
  have "insert_raw_unique_loop cntr e k el_size layout i c =
          Some (cntr', cc4_map_el (hndl cntr) i el_size layout)"
    using r(1) lt i sh(1) by (subst insert_raw_unique_loop.simps) simp
  with r cc4_map_el_nonnull show ?case by blast
next
  case (Suc d i c)
  define n where "n = hdr_cap cntr"
  have i: "i < n" using Suc.prems(1) by (simp add: n_def)
  have pos: "0 < n" using i by simp
  note sh = shape_ok_pos[OF rh_invD(1)[OF inv] pos[unfolded n_def], folded n_def]
  show ?case
  proof (cases "pl cntr i < c")
    case lt: True
    from insert_raw_inner_enter[OF inv nk Suc.prems(1,2,3,4,5,6,7) lt, of e]
    obtain cntr' where r:
      "insert_raw_inner (cntr\<lparr>hdr_size := size_t (hdr_size cntr + 1)\<rparr>) i e k c = Some cntr'"
      "rh_inv hash cntr'"
      "\<forall>k' v'. holds cntr' k' v' \<longleftrightarrow> holds cntr k' v' \<or> (k' = k \<and> v' = e)"
      "hdr_size cntr' = hdr_size cntr + 1" "hdr_cap cntr' = hdr_cap cntr"
      "hndl cntr' = hndl cntr"
      by blast
    have "insert_raw_unique_loop cntr e k el_size layout i c =
            Some (cntr', cc4_map_el (hndl cntr) i el_size layout)"
      using r(1) lt i sh(1) by (subst insert_raw_unique_loop.simps) simp
    with r cc4_map_el_nonnull show ?thesis by blast
  next
    case False
    then have ge: "c \<le> pl cntr i" by simp
    then have occ: "pl cntr i \<noteq> 0" using Suc.prems(2) by simp
    have shift: "((i + 1) mod n + m) mod n = (i + Suc m) mod n" for m
      by (simp add: mod_add_left_eq)
    have a1: "(i + 1) mod n < hdr_cap cntr" using pos by (simp add: n_def)
    have a2: "1 \<le> c + 1" by simp
    have a3: "(hash k + (c + 1 - 1)) mod hdr_cap cntr = (i + 1) mod n"
      unfolding n_def[symmetric] using Suc.prems(2) Suc.prems(3)[folded n_def] by (rule home_step)
    have a4: "c + 1 \<le> pl cntr x + 1"
      if "x < hdr_cap cntr" "(x + 1) mod hdr_cap cntr = (i + 1) mod n" for x
    proof -
      have "x = i" using suc_mod_inj[of x n i] that i by (simp add: n_def)
      with ge show ?thesis by simp
    qed
    have a5: "pl cntr (((i + 1) mod n + d) mod hdr_cap cntr) = 0"
      unfolding n_def[symmetric] shift using Suc.prems(5)[folded n_def] .
    have a6: "\<forall>m<d. pl cntr (((i + 1) mod n + m) mod hdr_cap cntr) \<noteq> 0"
      unfolding n_def[symmetric] shift
    proof (intro allI impI)
      fix m assume "m < d"
      then show "pl cntr ((i + Suc m) mod n) \<noteq> 0"
        using Suc.prems(6)[rule_format, of "Suc m"] by (simp add: n_def)
    qed
    have a7: "c + 1 + d \<le> hdr_cap cntr" using Suc.prems(7) by simp
    from Suc.IH[OF a1 a2 a3 a4 a5 a6 a7]
    obtain cntr' itr where r:
      "insert_raw_unique_loop cntr e k el_size layout
         ((i + 1) mod n) (c + 1) = Some (cntr', itr)" "itr \<noteq> 0"
      "rh_inv hash cntr'"
      "\<forall>k' v'. holds cntr' k' v' \<longleftrightarrow> holds cntr k' v' \<or> (k' = k \<and> v' = e)"
      "hdr_size cntr' = hdr_size cntr + 1" "hdr_cap cntr' = hdr_cap cntr"
      "hndl cntr' = hndl cntr"
      by blast
    have "c + 1 < 2 ^ 32" using Suc.prems(7) sh(2) by (simp add: n_def)
    then have pt: "probelen_ty (c + 1) = c + 1" by (simp add: probelen_ty_def)
    have "insert_raw_unique_loop cntr e k el_size layout i c =
            Some (cntr', itr)"
      using r(1) False i pt
      by (subst insert_raw_unique_loop.simps) (simp add: sh n_def[symmetric])
    with r show ?thesis by blast
  qed
qed


lemma replace_inv:
  fixes cntr :: "('k, 'v) cc4_map" and e :: 'v
  assumes inv: "rh_inv hash cntr" and x: "x < hdr_cap cntr" "pl cntr x \<noteq> 0"
    "bkt_key (buckets cntr ! x) = k"
  defines "cntr' \<equiv> cntr\<lparr>buckets := (buckets cntr)
                 [x := (buckets cntr ! x)\<lparr>bkt_key := k, bkt_el := e\<rparr>]\<rparr>"
  shows "rh_inv hash cntr'"
    and "holds cntr' k' v' \<longleftrightarrow> (if k' = k then v' = e else holds cntr k' v')"
    and "hdr_size cntr' = hdr_size cntr" "hdr_cap cntr' = hdr_cap cntr" "hndl cntr' = hndl cntr"
proof -
  define n where "n = hdr_cap cntr"
  have len: "length (buckets cntr) = n"
    using rh_invD(1)[OF inv] by (simp add: shape_ok_def n_def)
  have n': "hdr_cap cntr' = n" "length (buckets cntr') = n"
    by (simp_all add: cntr'_def n_def len)
  have pl': "pl cntr' y = pl cntr y" if "y < n" for y
    using that by (cases "y = x") (simp_all add: cntr'_def len)
  have key': "bkt_key (buckets cntr' ! y) = bkt_key (buckets cntr ! y)" if "y < n" for y
    using that x(3) by (cases "y = x") (simp_all add: cntr'_def len)
  have el': "bkt_el (buckets cntr' ! y) = (if y = x then e else bkt_el (buckets cntr ! y))"
    if "y < n" for y
    using that by (cases "y = x") (simp_all add: cntr'_def len)
  have sets: "{y. y < n \<and> pl cntr' y \<noteq> 0} = {y. y < n \<and> pl cntr y \<noteq> 0}"
    using pl' by auto
  have mods: "(y + 1) mod n < n" if "y < n" for y using that by simp
  show "rh_inv hash cntr'"
    using inv sets pl' key' mods
    by (simp add: rh_inv_def shape_ok_def size_ok_def homes_ok_def order_ok_def
        keys_distinct_def n' n_def[symmetric] cntr'_def[symmetric])
       (simp add: cntr'_def)
  have kd: "\<And>y. y < n \<Longrightarrow> pl cntr y \<noteq> 0 \<Longrightarrow> bkt_key (buckets cntr ! y) = k \<Longrightarrow> y = x"
    using rh_invD(5)[OF inv] x by (auto simp: keys_distinct_def n_def)
  show "holds cntr' k' v' \<longleftrightarrow> (if k' = k then v' = e else holds cntr k' v')"
  proof (cases "k' = k")
    case True
    have "holds cntr' k v' \<longleftrightarrow> v' = e"
    proof
      assume "holds cntr' k v'"
      then obtain y where y: "y < n" "pl cntr' y \<noteq> 0" "bkt_key (buckets cntr' ! y) = k"
        "bkt_el (buckets cntr' ! y) = v'" by (auto simp: holds_def n')
      then have "y = x" using kd[of y] pl'[of y] key'[of y] by simp
      with y el'[of y] show "v' = e" by simp
    next
      assume "v' = e"
      with x pl'[of x] key'[of x] el'[of x] show "holds cntr' k v'"
        by (auto simp: holds_def n' n_def)
    qed
    with True show ?thesis by simp
  next
    case False
    have "holds cntr' k' v' \<longleftrightarrow> holds cntr k' v'"
    proof
      assume "holds cntr' k' v'"
      then obtain y where y: "y < n" "pl cntr' y \<noteq> 0" "bkt_key (buckets cntr' ! y) = k'"
        "bkt_el (buckets cntr' ! y) = v'" by (auto simp: holds_def n')
      then have "y \<noteq> x" using False key'[of y] x(3) by auto
      with y pl'[of y] key'[of y] el'[of y] show "holds cntr k' v'"
        by (auto simp: holds_def n_def)
    next
      assume "holds cntr k' v'"
      then obtain y where y: "y < n" "pl cntr y \<noteq> 0" "bkt_key (buckets cntr ! y) = k'"
        "bkt_el (buckets cntr ! y) = v'" by (auto simp: holds_def n_def)
      then have "y \<noteq> x" using False x(3) by auto
      with y pl'[of y] key'[of y] el'[of y] show "holds cntr' k' v'"
        by (auto simp: holds_def n')
    qed
    with False show ?thesis by simp
  qed
  show "hdr_size cntr' = hdr_size cntr" "hdr_cap cntr' = hdr_cap cntr" "hndl cntr' = hndl cntr"
    by (simp_all add: cntr'_def)
qed

lemma insert_raw_loop_present:
  fixes cntr :: "('k, 'v) cc4_map"
  assumes inv: "rh_inv hash cntr" and cm: "cmpr_ok cmpr"
    and x: "x < hdr_cap cntr" "pl cntr x \<noteq> 0" "bkt_key (buckets cntr ! x) = k"
    and m: "m < pl cntr x"
  shows "insert_raw_loop cntr e k replace el_size layout cmpr el_dtor key_dtor
           ((hash k + m) mod hdr_cap cntr) (Suc m) =
         Some (if replace
               then (call_dtor key_dtor (cc4_map_key (hndl cntr) x el_size layout) @
                     call_dtor el_dtor (cc4_map_el (hndl cntr) x el_size layout),
                     cntr\<lparr>buckets := (buckets cntr)
                       [x := (buckets cntr ! x)\<lparr>bkt_key := k, bkt_el := e\<rparr>]\<rparr>,
                     cc4_map_el (hndl cntr) x el_size layout)
               else ([], cntr, cc4_map_el (hndl cntr) x el_size layout))"
  using m
proof (induction "pl cntr x - Suc m" arbitrary: m rule: less_induct)
  case (less m)
  define n where "n = hdr_cap cntr"
  define s where "s = (hash k + m) mod n"
  have n_pos: "0 < n" using x(1) by (simp add: n_def)
  note sh = shape_ok_pos[OF rh_invD(1)[OF inv] n_pos[unfolded n_def], folded n_def]
  have s_lt: "s < n" using n_pos by (simp add: s_def)
  have hx: "pl cntr x \<le> n" "(hash k + (pl cntr x - 1)) mod n = x"
    using rh_invD(3)[OF inv] x by (auto simp: homes_ok_def n_def)
  have ord: "\<And>y. y < n \<Longrightarrow> pl cntr ((y + 1) mod n) \<le> pl cntr y + 1"
    using rh_invD(4)[OF inv] by (simp add: order_ok_def n_def)
  have "hash k + m + (pl cntr x - Suc m) = hash k + (pl cntr x - 1)"
    using less.prems by simp
  with chain_le[of n "pl cntr" "hash k + m" "pl cntr x - Suc m", OF ord n_pos] hx(2)
  have "pl cntr x \<le> pl cntr s + (pl cntr x - Suc m)" by (simp add: s_def)
  then have ge: "Suc m \<le> pl cntr s" using less.prems by simp
  have last: "s = x" if "Suc m = pl cntr x"
    using hx(2) unfolding that[symmetric] by (simp add: s_def)
  have uniq: "s = x" if "bkt_key (buckets cntr ! s) = k"
    using rh_invD(5)[OF inv] that x s_lt ge by (auto simp: keys_distinct_def n_def)
  show ?case
  proof (cases "Suc m = pl cntr s \<and> cmpr (bkt_key (buckets cntr ! s)) k = 0")
    case True
    then have "s = x" using uniq cm by (simp add: cmpr_ok_def)
    with True s_lt ge show ?thesis
      by (subst insert_raw_loop.simps) (simp add: sh s_def[symmetric] n_def[symmetric])
  next
    case False
    have lt: "Suc m < pl cntr x"
    proof (rule ccontr)
      assume "\<not> Suc m < pl cntr x"
      then have e: "Suc m = pl cntr x" using less.prems by simp
      from last[OF e] e x(3) False cm show False by (simp add: cmpr_ok_def)
    qed
    have "Suc (Suc m) < 2 ^ 32" using lt hx(1) sh(2) by simp
    then have pt: "probelen_ty (Suc m + 1) = Suc (Suc m)" by (simp add: probelen_ty_def)
    have nx: "(s + 1) mod n = (hash k + Suc m) mod n"
      by (simp add: s_def mod_Suc_eq)
    note ih = less.hyps[of "Suc m", folded n_def]
    have ng: "\<not> pl cntr s < Suc m" using ge by simp
    show ?thesis
      apply (subst insert_raw_loop.simps)
      using False s_lt ng pt nx ih lt less.prems
      by (auto simp: sh s_def[symmetric] n_def[symmetric])
  qed
qed


lemma has_key_holds: "has_key cntr k \<longleftrightarrow> (\<exists>v. holds cntr k v)"
  by (auto simp: has_key_def holds_def)

lemma cc4_map_insert_raw_new:
  fixes cntr :: "('k, 'v) cc4_map"
  assumes inv: "rh_inv hash cntr" and cm: "cmpr_ok cmpr" and nk: "\<not> has_key cntr k"
    and room: "hdr_size cntr < hdr_cap cntr"
  shows "\<exists>cntr' itr.
           cc4_map_insert_raw cntr e k replace el_size layout hash cmpr el_dtor key_dtor =
             Some ([], cntr', itr) \<and> itr \<noteq> 0 \<and>
           rh_inv hash cntr' \<and>
           (\<forall>k' v'. holds cntr' k' v' \<longleftrightarrow> holds cntr k' v' \<or> (k' = k \<and> v' = e)) \<and>
           hdr_size cntr' = hdr_size cntr + 1 \<and> hdr_cap cntr' = hdr_cap cntr \<and>
           hndl cntr' = hndl cntr"
proof -
  define n where "n = hdr_cap cntr"
  have pos: "0 < n" using room by (simp add: n_def)
  note sh = shape_ok_pos[OF rh_invD(1)[OF inv] pos[unfolded n_def], folded n_def]
  define i where "i = hash k mod n"
  have i: "i < n" using pos by (simp add: i_def)
  from rh_inv_empty_slot[OF inv room] obtain x where x: "x < n" "pl cntr x = 0"
    by (auto simp: n_def)
  from first_empty[of x n "pl cntr" i, OF x i] obtain d where
    d: "d < n" "pl cntr ((i + d) mod n) = 0" "\<forall>m<d. pl cntr ((i + m) mod n) \<noteq> 0"
    by blast
  have a1: "i < hdr_cap cntr" using i by (simp add: n_def)
  have a3: "(hash k + (1 - 1)) mod hdr_cap cntr = i" by (simp add: i_def n_def)
  have a4: "1 \<le> pl cntr y + 1" for y by simp
  have a7: "1 + d \<le> hdr_cap cntr" using d(1) by (simp add: n_def)
  from insert_raw_loop_new[OF inv cm nk a1 _ a3 a4 d(2)[unfolded n_def] d(3)[unfolded n_def] a7,
      of e replace el_size layout el_dtor key_dtor]
  show ?thesis
    by (simp add: cc4_map_insert_raw_def sh i_def n_def[symmetric])
qed

lemma cc4_map_insert_raw_present:
  fixes cntr :: "('k, 'v) cc4_map"
  assumes inv: "rh_inv hash cntr" and cm: "cmpr_ok cmpr"
    and x: "x < hdr_cap cntr" "pl cntr x \<noteq> 0" "bkt_key (buckets cntr ! x) = k"
  shows "cc4_map_insert_raw cntr e k replace el_size layout hash cmpr el_dtor key_dtor =
         Some (if replace
               then (call_dtor key_dtor (cc4_map_key (hndl cntr) x el_size layout) @
                     call_dtor el_dtor (cc4_map_el (hndl cntr) x el_size layout),
                     cntr\<lparr>buckets := (buckets cntr)
                       [x := (buckets cntr ! x)\<lparr>bkt_key := k, bkt_el := e\<rparr>]\<rparr>,
                     cc4_map_el (hndl cntr) x el_size layout)
               else ([], cntr, cc4_map_el (hndl cntr) x el_size layout))"
proof -
  have pos: "0 < hdr_cap cntr" using x(1) by simp
  note sh = shape_ok_pos[OF rh_invD(1)[OF inv] pos]
  have m: "0 < pl cntr x" using x(2) by simp
  from insert_raw_loop_present[OF inv cm x m, of e replace el_size layout el_dtor key_dtor]
  show ?thesis
    by (simp add: cc4_map_insert_raw_def sh)
qed

lemma cc4_map_insert_raw_spec:
  fixes cntr :: "('k, 'v) cc4_map"
  assumes inv: "rh_inv hash cntr" and cm: "cmpr_ok cmpr"
    and room: "hdr_size cntr < hdr_cap cntr"
  shows "\<exists>evs cntr' itr.
           cc4_map_insert_raw cntr e k replace el_size layout hash cmpr el_dtor key_dtor =
             Some (evs, cntr', itr) \<and> itr \<noteq> 0 \<and>
           rh_inv hash cntr' \<and> hdr_cap cntr' = hdr_cap cntr \<and> hndl cntr' = hndl cntr \<and>
           hdr_size cntr' = (if has_key cntr k then hdr_size cntr else hdr_size cntr + 1) \<and>
           (\<forall>k' v'. holds cntr' k' v' \<longleftrightarrow>
              (if k' = k then (if has_key cntr k \<and> \<not> replace then holds cntr k v' else v' = e)
               else holds cntr k' v'))"
proof (cases "has_key cntr k")
  case False
  from cc4_map_insert_raw_new[OF inv cm False room, of e replace el_size layout el_dtor key_dtor]
  obtain cntr' itr where r:
    "cc4_map_insert_raw cntr e k replace el_size layout hash cmpr el_dtor key_dtor =
       Some ([], cntr', itr)" "itr \<noteq> 0" "rh_inv hash cntr'"
    "\<forall>k' v'. holds cntr' k' v' \<longleftrightarrow> holds cntr k' v' \<or> (k' = k \<and> v' = e)"
    "hdr_size cntr' = hdr_size cntr + 1" "hdr_cap cntr' = hdr_cap cntr" "hndl cntr' = hndl cntr"
    by blast
  have "\<forall>k' v'. holds cntr' k' v' \<longleftrightarrow>
          (if k' = k then (if has_key cntr k \<and> \<not> replace then holds cntr k v' else v' = e)
           else holds cntr k' v')"
    using r(4) False by (auto simp: has_key_holds)
  with r False show ?thesis by auto
next
  case True
  then obtain x where x: "x < hdr_cap cntr" "pl cntr x \<noteq> 0" "bkt_key (buckets cntr ! x) = k"
    by (auto simp: has_key_def)
  note p = cc4_map_insert_raw_present[OF inv cm x, of e replace el_size layout el_dtor key_dtor]
  show ?thesis
  proof (cases replace)
    case rp: True
    note ri = replace_inv[OF inv x, of e]
    show ?thesis
      using p rp True ri cc4_map_el_nonnull[of "hndl cntr" x el_size layout] by auto
  next
    case rp: False
    show ?thesis
      using p rp True inv cc4_map_el_nonnull[of "hndl cntr" x el_size layout] by auto
  qed
qed

lemma cc4_map_insert_raw_unique_new:
  fixes cntr :: "('k, 'v) cc4_map"
  assumes inv: "rh_inv hash cntr" and nk: "\<not> has_key cntr k"
    and room: "hdr_size cntr < hdr_cap cntr"
  shows "\<exists>cntr' itr.
           cc4_map_insert_raw_unique cntr e k el_size layout hash = Some (cntr', itr) \<and>
           itr \<noteq> 0 \<and> rh_inv hash cntr' \<and>
           (\<forall>k' v'. holds cntr' k' v' \<longleftrightarrow> holds cntr k' v' \<or> (k' = k \<and> v' = e)) \<and>
           hdr_size cntr' = hdr_size cntr + 1 \<and> hdr_cap cntr' = hdr_cap cntr \<and>
           hndl cntr' = hndl cntr"
proof -
  define n where "n = hdr_cap cntr"
  have pos: "0 < n" using room by (simp add: n_def)
  note sh = shape_ok_pos[OF rh_invD(1)[OF inv] pos[unfolded n_def], folded n_def]
  define i where "i = hash k mod n"
  have i: "i < n" using pos by (simp add: i_def)
  from rh_inv_empty_slot[OF inv room] obtain x where x: "x < n" "pl cntr x = 0"
    by (auto simp: n_def)
  from first_empty[of x n "pl cntr" i, OF x i] obtain d where
    d: "d < n" "pl cntr ((i + d) mod n) = 0" "\<forall>m<d. pl cntr ((i + m) mod n) \<noteq> 0"
    by blast
  have a1: "i < hdr_cap cntr" using i by (simp add: n_def)
  have a3: "(hash k + (1 - 1)) mod hdr_cap cntr = i" by (simp add: i_def n_def)
  have a4: "1 \<le> pl cntr y + 1" for y by simp
  have a7: "1 + d \<le> hdr_cap cntr" using d(1) by (simp add: n_def)
  from insert_raw_unique_loop_new[OF inv nk a1 _ a3 a4 d(2)[unfolded n_def]
      d(3)[unfolded n_def] a7, of e el_size layout]
  show ?thesis
    by (simp add: cc4_map_insert_raw_unique_def sh i_def n_def[symmetric])
qed

section \<open>Rehashing\<close>

lemma rehash_loop_ok:
  fixes cntr new :: "('k, 'v) cc4_map"
  assumes "rh_inv hash new"
    and "distinct is" "\<forall>x\<in>set is. x < length (buckets cntr)"
    and "\<forall>x\<in>set is. \<forall>y\<in>set is. pl cntr x \<noteq> 0 \<and> pl cntr y \<noteq> 0 \<and>
           bkt_key (buckets cntr ! x) = bkt_key (buckets cntr ! y) \<longrightarrow> x = y"
    and "\<forall>x\<in>set is. pl cntr x \<noteq> 0 \<longrightarrow> \<not> has_key new (bkt_key (buckets cntr ! x))"
    and "hdr_size new + card {x \<in> set is. pl cntr x \<noteq> 0} \<le> hdr_cap new"
  shows "\<exists>new'. rehash_loop cntr el_size layout hash is new = Some new' \<and>
           rh_inv hash new' \<and> hdr_cap new' = hdr_cap new \<and> hndl new' = hndl new \<and>
           hdr_size new' = hdr_size new + card {x \<in> set is. pl cntr x \<noteq> 0} \<and>
           (\<forall>k v. holds new' k v \<longleftrightarrow> holds new k v \<or>
              (\<exists>x\<in>set is. pl cntr x \<noteq> 0 \<and> bkt_key (buckets cntr ! x) = k \<and>
                 bkt_el (buckets cntr ! x) = v))"
  using assms
proof (induction "is" arbitrary: new)
  case Nil
  then show ?case by simp
next
  case (Cons x "is")
  have xin: "x < length (buckets cntr)" using Cons.prems(3) by simp
  have xnot: "x \<notin> set is" and dis: "distinct is" using Cons.prems(2) by simp_all
  show ?case
  proof (cases "pl cntr x \<noteq> 0")
    case False
    then have eq: "{y \<in> set (x # is). pl cntr y \<noteq> 0} = {y \<in> set is. pl cntr y \<noteq> 0}"
      by auto
    have p3: "\<forall>x\<in>set is. x < length (buckets cntr)" using Cons.prems(3) by simp
    have p4: "\<forall>x\<in>set is. \<forall>y\<in>set is. pl cntr x \<noteq> 0 \<and> pl cntr y \<noteq> 0 \<and>
           bkt_key (buckets cntr ! x) = bkt_key (buckets cntr ! y) \<longrightarrow> x = y"
      using Cons.prems(4) by simp
    have p5: "\<forall>x\<in>set is. pl cntr x \<noteq> 0 \<longrightarrow> \<not> has_key new (bkt_key (buckets cntr ! x))"
      using Cons.prems(5) by simp
    have p6: "hdr_size new + card {x \<in> set is. pl cntr x \<noteq> 0} \<le> hdr_cap new"
      using Cons.prems(6) unfolding eq .
    note ih = Cons.IH[OF Cons.prems(1) dis p3 p4 p5 p6]
    show ?thesis using ih False xin unfolding eq by simp
  next
    case True
    have fin: "finite {y \<in> set is. pl cntr y \<noteq> 0}" by simp
    have eq: "{y \<in> set (x # is). pl cntr y \<noteq> 0} = insert x {y \<in> set is. pl cntr y \<noteq> 0}"
      using True by auto
    have cd: "card {y \<in> set (x # is). pl cntr y \<noteq> 0} = Suc (card {y \<in> set is. pl cntr y \<noteq> 0})"
      unfolding eq using xnot by simp
    have p6: "hdr_size new + Suc (card {y \<in> set is. pl cntr y \<noteq> 0}) \<le> hdr_cap new"
      using Cons.prems(6) unfolding cd .
    have room: "hdr_size new < hdr_cap new" using p6 by simp
    have nk: "\<not> has_key new (bkt_key (buckets cntr ! x))" using Cons.prems(5) True by simp
    from cc4_map_insert_raw_unique_new[OF Cons.prems(1) nk room,
        of "bkt_el (buckets cntr ! x)" el_size layout]
    obtain new1 itr where r:
      "cc4_map_insert_raw_unique new (bkt_el (buckets cntr ! x)) (bkt_key (buckets cntr ! x))
         el_size layout hash = Some (new1, itr)"
      "rh_inv hash new1"
      "\<forall>k' v'. holds new1 k' v' \<longleftrightarrow> holds new k' v' \<or>
         (k' = bkt_key (buckets cntr ! x) \<and> v' = bkt_el (buckets cntr ! x))"
      "hdr_size new1 = hdr_size new + 1" "hdr_cap new1 = hdr_cap new" "hndl new1 = hndl new"
      by blast
    have fresh1: "\<forall>y\<in>set is. pl cntr y \<noteq> 0 \<longrightarrow> \<not> has_key new1 (bkt_key (buckets cntr ! y))"
    proof (intro ballI impI)
      fix y assume y: "y \<in> set is" "pl cntr y \<noteq> 0"
      then have "y \<noteq> x" using xnot by auto
      then have "bkt_key (buckets cntr ! y) \<noteq> bkt_key (buckets cntr ! x)"
        using Cons.prems(4) y True by auto
      moreover have "\<not> has_key new (bkt_key (buckets cntr ! y))"
        using Cons.prems(5) y by simp
      ultimately show "\<not> has_key new1 (bkt_key (buckets cntr ! y))"
        using r(3) by (simp add: has_key_holds)
    qed
    have room1: "hdr_size new1 + card {y \<in> set is. pl cntr y \<noteq> 0} \<le> hdr_cap new1"
      using p6 r(4,5) by simp
    have p3: "\<forall>x\<in>set is. x < length (buckets cntr)" using Cons.prems(3) by simp
    have p4: "\<forall>x\<in>set is. \<forall>y\<in>set is. pl cntr x \<noteq> 0 \<and> pl cntr y \<noteq> 0 \<and>
           bkt_key (buckets cntr ! x) = bkt_key (buckets cntr ! y) \<longrightarrow> x = y"
      using Cons.prems(4) by simp
    from Cons.IH[OF r(2) dis p3 p4 fresh1 room1]
    obtain new' where n':
      "rehash_loop cntr el_size layout hash is new1 = Some new'"
      "rh_inv hash new'" "hdr_cap new' = hdr_cap new1" "hndl new' = hndl new1"
      "hdr_size new' = hdr_size new1 + card {x \<in> set is. pl cntr x \<noteq> 0}"
      "\<forall>k v. holds new' k v \<longleftrightarrow> holds new1 k v \<or>
              (\<exists>x\<in>set is. pl cntr x \<noteq> 0 \<and> bkt_key (buckets cntr ! x) = k \<and>
                 bkt_el (buckets cntr ! x) = v)"
      by blast
    have "rehash_loop cntr el_size layout hash (x # is) new = Some new'"
      using True xin r(1) n'(1) by simp
    moreover have "\<forall>k v. holds new' k v \<longleftrightarrow> holds new k v \<or>
              (\<exists>y\<in>set (x # is). pl cntr y \<noteq> 0 \<and> bkt_key (buckets cntr ! y) = k \<and>
                 bkt_el (buckets cntr ! y) = v)"
      using n'(6) r(3) True by auto
    ultimately show ?thesis using n'(2-5) r(4-6) unfolding cd by auto
  qed
qed


lemma fresh_block_inv:
  fixes junk :: "nat \<Rightarrow> ('k, 'v) bucket" and p :: addr
  assumes "\<exists>j\<le>31. cap = 2 ^ j"
  defines "new \<equiv> \<lparr>hndl = p, hdr_size = 0, hdr_cap = cap,
                   buckets = map (\<lambda>i. (junk i)\<lparr>bkt_probelen := 0\<rparr>) [0..<cap]\<rparr>"
  shows "rh_inv hash new" "\<not> has_key new k" "\<not> holds new k v"
proof -
  have pl0: "pl new x = 0" if "x < cap" for x
    using that by (simp add: new_def)
  have pos: "0 < cap" using assms(1) by auto
  have md: "(x + 1) mod cap < cap" for x using pos by simp
  have "{x. x < cap \<and> pl new x \<noteq> 0} = {}" using pl0 by auto
  then have "size_ok new" by (simp add: size_ok_def new_def)
  moreover have "shape_ok new" using assms(1) by (simp add: shape_ok_def new_def)
  moreover have "homes_ok hash new" using pl0 by (simp add: homes_ok_def new_def)
  moreover have "order_ok new"
    unfolding order_ok_def
  proof (intro allI impI)
    fix x assume "x < hdr_cap new"
    then have "x < cap" by (simp add: new_def)
    have "pl new ((x + 1) mod cap) = 0" using pl0[OF md] .
    then show "pl new ((x + 1) mod hdr_cap new) \<le> pl new x + 1" by (simp add: new_def)
  qed
  moreover have "keys_distinct new" using pl0 by (simp add: keys_distinct_def new_def)
  ultimately show "rh_inv hash new" by (simp add: rh_inv_def)
  show "\<not> has_key new k" using pl0 by (auto simp: has_key_def new_def)
  show "\<not> holds new k v" using pl0 by (auto simp: holds_def new_def)
qed

lemma cc4_map_make_rehash_ok:
  fixes cntr :: "('k, 'v) cc4_map"
  assumes inv: "rh_inv hash cntr" and cap: "\<exists>j\<le>31. cap = 2 ^ j"
    and room: "hdr_size cntr \<le> cap"
    and al: "realloc' (size_t (sizeof_map_hdr + CC4_BUCKET_SIZE el_size layout * cap)) =
               Some (p, junk)"
  shows "\<exists>new. cc4_map_make_rehash cntr cap el_size layout hash realloc' =
                 Some ([Realloc (size_t (sizeof_map_hdr + CC4_BUCKET_SIZE el_size layout * cap))],
                       Some new) \<and>
               rh_inv hash new \<and> hdr_cap new = cap \<and> hndl new = p \<and>
               hdr_size new = hdr_size cntr \<and> (\<forall>k v. holds new k v \<longleftrightarrow> holds cntr k v)"
proof -
  define new0 :: "('k, 'v) cc4_map" where
    "new0 = \<lparr>hndl = p, hdr_size = 0, hdr_cap = cap,
             buckets = map (\<lambda>i. (junk i)\<lparr>bkt_probelen := 0\<rparr>) [0..<cap]\<rparr>"
  note fb = fresh_block_inv[OF cap, where p = p and junk = junk, folded new0_def]
  define n where "n = hdr_cap cntr"
  have len: "length (buckets cntr) = n"
    using rh_invD(1)[OF inv] by (simp add: shape_ok_def n_def)
  have st: "{x \<in> set [0..<n]. pl cntr x \<noteq> 0} = {x. x < n \<and> pl cntr x \<noteq> 0}" by auto
  have sz: "hdr_size cntr = card {x \<in> set [0..<n]. pl cntr x \<noteq> 0}"
    unfolding st using rh_invD(2)[OF inv] by (simp add: size_ok_def n_def)
  have a2: "distinct [0..<n]" by simp
  have a3: "\<forall>x\<in>set [0..<n]. x < length (buckets cntr)" by (simp add: len)
  have a4: "\<forall>x\<in>set [0..<n]. \<forall>y\<in>set [0..<n]. pl cntr x \<noteq> 0 \<and> pl cntr y \<noteq> 0 \<and>
           bkt_key (buckets cntr ! x) = bkt_key (buckets cntr ! y) \<longrightarrow> x = y"
    using rh_invD(5)[OF inv] by (auto simp: keys_distinct_def n_def)
  have a5: "\<forall>x\<in>set [0..<n]. pl cntr x \<noteq> 0 \<longrightarrow> \<not> has_key new0 (bkt_key (buckets cntr ! x))"
    using fb(2) by simp
  have a6: "hdr_size new0 + card {x \<in> set [0..<n]. pl cntr x \<noteq> 0} \<le> hdr_cap new0"
    using room sz by (simp add: new0_def)
  from rehash_loop_ok[OF fb(1) a2 a3 a4 a5 a6, of el_size layout]
  obtain new where r: "rehash_loop cntr el_size layout hash [0..<n] new0 = Some new"
    "rh_inv hash new" "hdr_cap new = hdr_cap new0" "hndl new = hndl new0"
    "hdr_size new = hdr_size new0 + card {x \<in> set [0..<n]. pl cntr x \<noteq> 0}"
    "\<forall>k v. holds new k v \<longleftrightarrow> holds new0 k v \<or>
              (\<exists>x\<in>set [0..<n]. pl cntr x \<noteq> 0 \<and> bkt_key (buckets cntr ! x) = k \<and>
                 bkt_el (buckets cntr ! x) = v)"
    by blast
  have h: "\<forall>k v. holds new k v \<longleftrightarrow> holds cntr k v"
  proof (intro allI)
    fix k v
    have "holds cntr k v \<longleftrightarrow> (\<exists>x\<in>set [0..<n]. pl cntr x \<noteq> 0 \<and>
            bkt_key (buckets cntr ! x) = k \<and> bkt_el (buckets cntr ! x) = v)"
      by (auto simp: holds_def n_def)
    with r(6) fb(3)[of k v] show "holds new k v \<longleftrightarrow> holds cntr k v" by simp
  qed
  have "cc4_map_make_rehash cntr cap el_size layout hash realloc' =
          Some ([Realloc (size_t (sizeof_map_hdr + CC4_BUCKET_SIZE el_size layout * cap))],
                Some new)"
    using al r(1) by (simp add: cc4_map_make_rehash_def Let_def new0_def n_def)
  moreover have "hdr_cap new = cap" "hndl new = p" "hdr_size new = hdr_size cntr"
    using r(3,4,5) sz by (simp_all add: new0_def)
  ultimately show ?thesis using r(2) h by blast
qed

lemma cap_bound_pow2:
  assumes "c = 8 * 2 ^ j" "c \<le> (2::nat) ^ 31"
  shows "\<exists>j\<le>31. c = 2 ^ j"
proof -
  have c: "c = 2 ^ (j + 3)" using assms(1) by (simp add: power_add)
  with assms(2) have "(2::nat) ^ (j + 3) \<le> 2 ^ 31" by simp
  then have "j + 3 \<le> 31" by (rule power_le_imp_le_exp[rotated]) simp
  with c show ?thesis by blast
qed

text \<open>
  A rehash into capacity \<open>cap\<close>, whenever it returns a block, returns one that satisfies
  the invariant and holds what the old table held.
\<close>

lemma cc4_map_make_rehash_inv:
  fixes cntr :: "('k, 'v) cc4_map" and evs :: "'d event list"
  assumes inv: "rh_inv hash cntr" and cap: "\<exists>j\<le>31. cap = 2 ^ j"
    and room: "hdr_size cntr \<le> cap"
    and res: "cc4_map_make_rehash cntr cap el_size layout hash realloc' = Some (evs, Some new)"
  shows "rh_inv hash new \<and> hdr_cap new = cap \<and> hdr_size new = hdr_size cntr \<and>
         (\<forall>k v. holds new k v \<longleftrightarrow> holds cntr k v)"
proof -
  from cc4_map_make_rehash_frame[OF res] obtain p junk where
    al: "realloc' (size_t (sizeof_map_hdr + CC4_BUCKET_SIZE el_size layout * cap)) = Some (p, junk)"
    by blast
  from cc4_map_make_rehash_ok[where realloc' = realloc' and el_size = el_size
      and layout = layout and cap = cap, OF inv cap room al]
  obtain new2 where r:
    "cc4_map_make_rehash cntr cap el_size layout hash realloc' =
       Some ([Realloc (size_t (sizeof_map_hdr + CC4_BUCKET_SIZE el_size layout * cap))
               :: 'd event],
             Some new2)"
    "rh_inv hash new2" "hdr_cap new2 = cap" "hdr_size new2 = hdr_size cntr"
    "\<forall>k v. holds new2 k v \<longleftrightarrow> holds cntr k v"
    by blast
  have "new2 = new" using r(1)[unfolded res] by simp
  with r show ?thesis by simp
qed

section \<open>Reserve, shrink and insert preserve the invariant\<close>

lemma rh_inv_placeholder: "rh_inv hash cc4_map_placeholder"
  by (simp add: rh_inv_def shape_ok_def size_ok_def homes_ok_def order_ok_def keys_distinct_def)

lemma holds_placeholder: "\<not> holds cc4_map_placeholder k v"
  by (simp add: holds_def)

lemma rh_inv_cap_le:
  assumes "rh_inv hash cntr"
  shows "hdr_cap cntr \<le> 2 ^ 31"
proof (cases "hdr_cap cntr = 0")
  case True
  then show ?thesis by simp
next
  case False
  then show ?thesis using pow2_cap_facts(1)[OF rh_inv_pow2[OF assms]] by simp
qed

lemma rh_inv_size_zero:
  assumes "rh_inv hash cntr" "hdr_size cntr = 0"
  shows "\<not> holds cntr k v"
proof
  assume "holds cntr k v"
  then obtain x where x: "x < hdr_cap cntr" "pl cntr x \<noteq> 0" by (auto simp: holds_def)
  have "finite {x. x < hdr_cap cntr \<and> pl cntr x \<noteq> 0}" by simp
  moreover have "card {x. x < hdr_cap cntr \<and> pl cntr x \<noteq> 0} = 0"
    using rh_invD(2)[OF assms(1)] assms(2) by (simp add: size_ok_def)
  ultimately have "{x. x < hdr_cap cntr \<and> pl cntr x \<noteq> 0} = {}" by simp
  with x show False by blast
qed

lemma insert_raw_loop_frame:
  assumes "insert_raw_loop cntr e k replace el_size layout cmpr el_dtor key_dtor i c = Some res"
  shows "hndl (fst (snd res)) = hndl cntr \<and> hdr_cap (fst (snd res)) = hdr_cap cntr"
  using assms
proof (induction rule: insert_raw_loop.raw_induct[rotated 1, consumes 1])
  case (1 f cntr e k replace el_size layout cmpr el_dtor key_dtor i c res)
  show ?case
  proof (cases "i < length (buckets cntr)")
    case False
    with "1.hyps" show ?thesis by simp
  next
    case i: True
    show ?thesis
    proof (cases "pl cntr i < c")
      case True
      with i "1.hyps" obtain cntr' where
        "insert_raw_inner (cntr\<lparr>hdr_size := size_t (hdr_size cntr + 1)\<rparr>) i e k c = Some cntr'"
        "res = ([], cntr', cc4_map_el (hndl cntr) i el_size layout)"
        by (auto split: option.splits)
      with insert_raw_inner_frame[OF this(1)] show ?thesis by simp
    next
      case lt: False
      show ?thesis
      proof (cases "c = pl cntr i \<and> cmpr (bkt_key (buckets cntr ! i)) k = 0")
        case True
        with i lt "1.hyps" show ?thesis by (cases replace) auto
      next
        case False
        with i lt "1.hyps" have
          "f cntr e k replace el_size layout cmpr el_dtor key_dtor
             (next_bucket (hdr_cap cntr) i) (probelen_ty (c + 1)) = Some res"
          by auto
        from "1.IH"[OF this] show ?thesis .
      qed
    qed
  qed
qed


lemma cc4_map_reserve_inv:
  fixes cntr :: "('k, 'v) cc4_map" and evs :: "'d event list"
  assumes inv: "rh_inv hash cntr" and ml: "max_load_ok max_load"
    and res: "cc4_map_reserve cntr n el_size layout hash max_load realloc' = Some (evs, r)"
    and bound: "hdr_cap (new_cntr r) \<le> 2 ^ 31"
  shows "rh_inv hash (new_cntr r)" "hdr_size (new_cntr r) = hdr_size cntr"
    "holds (new_cntr r) k v \<longleftrightarrow> holds cntr k v"
    "hdr_cap cntr \<le> hdr_cap (new_cntr r)"
    "other_ptr r \<noteq> 0 \<Longrightarrow> of_nat n \<le> of_nat (hdr_cap (new_cntr r)) * max_load"
    "other_ptr r = 0 \<Longrightarrow> new_cntr r = cntr"
proof -
  from res obtain c where c: "cc4_map_min_cap_for_n_els n max_load = Some c"
    by (auto simp: cc4_map_reserve_def split: option.splits)
  note mc = cc4_map_min_cap_for_n_els_result[OF c]
  have ml0: "0 < max_load" "max_load \<le> 1" using ml by (simp_all add: max_load_ok_def)
  have nc: "of_nat n \<le> of_nat c * max_load" using mc by auto
  have goal: "rh_inv hash (new_cntr r) \<and> hdr_size (new_cntr r) = hdr_size cntr \<and>
    (holds (new_cntr r) k v \<longleftrightarrow> holds cntr k v) \<and>
    hdr_cap cntr \<le> hdr_cap (new_cntr r) \<and>
    (other_ptr r \<noteq> 0 \<longrightarrow> of_nat n \<le> of_nat (hdr_cap (new_cntr r)) * max_load) \<and>
    (other_ptr r = 0 \<longrightarrow> new_cntr r = cntr)"
  proof (cases "c \<le> hdr_cap cntr")
    case True
    then have r: "r = cc4_make_allocing_fn_result cntr cc4_dummy_true_ptr"
      using res c by (simp add: cc4_map_reserve_def cc4_map_cap_def)
    have "of_nat c * max_load \<le> of_nat (hdr_cap cntr) * max_load"
      using True ml0 by (simp add: mult_right_mono)
    with nc have "of_nat n \<le> of_nat (hdr_cap cntr) * max_load" by simp
    then show ?thesis
      using inv by (simp add: r cc4_make_allocing_fn_result_def cc4_dummy_true_ptr_def)
  next
    case False
    then obtain evs' res' where mr:
      "cc4_map_make_rehash cntr c el_size layout hash realloc' = Some (evs' :: 'd event list, res')"
      using res c by (auto simp: cc4_map_reserve_def cc4_map_cap_def split: option.splits)
    show ?thesis
    proof (cases res')
      case None
      then have "r = cc4_make_allocing_fn_result cntr 0"
        using res c mr False by (simp add: cc4_map_reserve_def cc4_map_cap_def)
      then show ?thesis using inv by (simp add: cc4_make_allocing_fn_result_def)
    next
      case (Some new)
      then have r: "r = cc4_make_allocing_fn_result new cc4_dummy_true_ptr"
        using res c mr False by (simp add: cc4_map_reserve_def cc4_map_cap_def)
      have capn: "hdr_cap new = c"
        using cc4_map_make_rehash_frame[OF mr[unfolded Some]] by auto
      then have cb: "c \<le> 2 ^ 31" using bound by (simp add: r cc4_make_allocing_fn_result_def)
      have "c \<noteq> 0" using False by simp
      with mc obtain j where "c = 8 * 2 ^ j" by auto
      from cap_bound_pow2[OF this cb] have pw: "\<exists>j\<le>31. c = 2 ^ j" .
      have room: "hdr_size cntr \<le> c" using rh_inv_size_le[OF inv] False by simp
      from cc4_map_make_rehash_inv[OF inv pw room mr[unfolded Some]]
      show ?thesis
        using nc False
        by (simp add: r cc4_make_allocing_fn_result_def cc4_dummy_true_ptr_def)
    qed
  qed
  then show "rh_inv hash (new_cntr r)" "hdr_size (new_cntr r) = hdr_size cntr"
    "holds (new_cntr r) k v \<longleftrightarrow> holds cntr k v"
    "hdr_cap cntr \<le> hdr_cap (new_cntr r)"
    "other_ptr r \<noteq> 0 \<Longrightarrow> of_nat n \<le> of_nat (hdr_cap (new_cntr r)) * max_load"
    "other_ptr r = 0 \<Longrightarrow> new_cntr r = cntr"
    by simp_all
qed


lemma cc4_map_shrink_inv:
  fixes cntr :: "('k, 'v) cc4_map" and evs :: "'d event list"
  assumes inv: "rh_inv hash cntr" and ml: "max_load_ok max_load"
    and res: "cc4_map_shrink cntr el_size layout hash max_load realloc' = Some (evs, r)"
    and bound: "hdr_cap (new_cntr r) \<le> 2 ^ 31"
  shows "rh_inv hash (new_cntr r)" "hdr_size (new_cntr r) = hdr_size cntr"
    "holds (new_cntr r) k v \<longleftrightarrow> holds cntr k v"
    "other_ptr r = 0 \<Longrightarrow> new_cntr r = cntr"
proof -
  from res obtain c where c: "cc4_map_min_cap_for_n_els (hdr_size cntr) max_load = Some c"
    by (auto simp: cc4_map_shrink_def cc4_map_size_def split: option.splits)
  note mc = cc4_map_min_cap_for_n_els_result[OF c]
  have ml0: "0 < max_load" "max_load \<le> 1" using ml by (simp_all add: max_load_ok_def)
  have goal: "rh_inv hash (new_cntr r) \<and> hdr_size (new_cntr r) = hdr_size cntr \<and>
    (holds (new_cntr r) k v \<longleftrightarrow> holds cntr k v) \<and> (other_ptr r = 0 \<longrightarrow> new_cntr r = cntr)"
  proof (cases "c = hdr_cap cntr")
    case True
    then have r: "r = cc4_make_allocing_fn_result cntr cc4_dummy_true_ptr"
      using res c by (simp add: cc4_map_shrink_def cc4_map_cap_def cc4_map_size_def)
    then show ?thesis
      using inv by (simp add: r cc4_make_allocing_fn_result_def)
  next
    case ne: False
    show ?thesis
    proof (cases "c = 0")
      case True
      then have r: "r = cc4_make_allocing_fn_result cc4_map_placeholder cc4_dummy_true_ptr"
        using res c ne by (simp add: cc4_map_shrink_def cc4_map_cap_def cc4_map_size_def)
      have z: "hdr_size cntr = 0" using mc True by auto
      show ?thesis
        using rh_inv_placeholder[of hash] holds_placeholder[of k v]
          rh_inv_size_zero[OF inv z, of k v] z
        by (simp add: r cc4_make_allocing_fn_result_def cc4_dummy_true_ptr_def)
    next
      case False
      then obtain evs' res' where mr:
        "cc4_map_make_rehash cntr c el_size layout hash realloc' =
           Some (evs' :: 'd event list, res')"
        using res c ne
        by (auto simp: cc4_map_shrink_def cc4_map_cap_def cc4_map_size_def split: option.splits)
      show ?thesis
      proof (cases res')
        case None
        then have "r = cc4_make_allocing_fn_result cntr 0"
          using res c mr ne False
          by (simp add: cc4_map_shrink_def cc4_map_cap_def cc4_map_size_def)
        then show ?thesis using inv by (simp add: cc4_make_allocing_fn_result_def)
      next
        case (Some new)
        then have r: "r = cc4_make_allocing_fn_result new cc4_dummy_true_ptr"
          using res c mr ne False
          by (simp add: cc4_map_shrink_def cc4_map_cap_def cc4_map_size_def)
        have capn: "hdr_cap new = c"
          using cc4_map_make_rehash_frame[OF mr[unfolded Some]] by auto
        then have cb: "c \<le> 2 ^ 31" using bound by (simp add: r cc4_make_allocing_fn_result_def)
        from mc False obtain j where j: "c = 8 * 2 ^ j"
          and nc: "of_nat (hdr_size cntr) \<le> of_nat c * max_load" by auto
        from cap_bound_pow2[OF j cb] have pw: "\<exists>j\<le>31. c = 2 ^ j" .
        have "of_nat c * max_load \<le> (of_nat c :: rat)"
          using ml0 by (simp add: mult_left_le)
        with nc have "(of_nat (hdr_size cntr) :: rat) \<le> of_nat c" by simp
        then have room: "hdr_size cntr \<le> c" by simp
        from cc4_map_make_rehash_inv[OF inv pw room mr[unfolded Some]]
        show ?thesis
          by (simp add: r cc4_make_allocing_fn_result_def cc4_dummy_true_ptr_def)
      qed
    qed
  qed
  then show "rh_inv hash (new_cntr r)" "hdr_size (new_cntr r) = hdr_size cntr"
    "holds (new_cntr r) k v \<longleftrightarrow> holds cntr k v"
    "other_ptr r = 0 \<Longrightarrow> new_cntr r = cntr"
    by simp_all
qed

lemma load_room:
  assumes "of_nat (s + 1) \<le> of_nat cap * max_load" "max_load \<le> (1::rat)" "0 < max_load"
  shows "s < cap"
proof -
  have "of_nat cap * max_load \<le> (of_nat cap :: rat)"
    using assms(2,3) by (simp add: mult_left_le)
  with assms(1) have "(of_nat (s + 1) :: rat) \<le> of_nat cap" by simp
  then have "s + 1 \<le> cap" by (simp only: of_nat_le_iff)
  then show ?thesis by simp
qed

lemma cc4_map_insert_inv:
  fixes cntr :: "('k, 'v) cc4_map" and evs :: "'d event list"
  assumes inv: "rh_inv hash cntr" and cm: "cmpr_ok cmpr" and ml: "max_load_ok max_load"
    and res: "cc4_map_insert cntr e k replace el_size layout hash cmpr max_load el_dtor key_dtor
                realloc' = Some (evs, r)"
    and bound: "hdr_cap (new_cntr r) \<le> 2 ^ 31"
  shows "rh_inv hash (new_cntr r)"
    and "other_ptr r = 0 \<Longrightarrow> new_cntr r = cntr"
    and "other_ptr r \<noteq> 0 \<Longrightarrow>
           hdr_size (new_cntr r) = (if has_key cntr k then hdr_size cntr else hdr_size cntr + 1) \<and>
           (\<forall>k' v'. holds (new_cntr r) k' v' \<longleftrightarrow>
              (if k' = k then (if has_key cntr k \<and> \<not> replace then holds cntr k v' else v' = e)
               else holds cntr k' v')) \<and>
           of_nat (hdr_size (new_cntr r)) \<le> of_nat (hdr_cap (new_cntr r)) * max_load \<and>
           hdr_cap cntr \<le> hdr_cap (new_cntr r)"
proof -
  have ml0: "0 < max_load" "max_load \<le> 1" using ml by (simp_all add: max_load_ok_def)
  have "hdr_size cntr + 1 < 2 ^ 64"
    using rh_inv_size_le[OF inv] rh_inv_cap_le[OF inv] by simp
  then have st: "size_t (hdr_size cntr + 1) = hdr_size cntr + 1" by (simp add: size_t_def)
  have goal: "rh_inv hash (new_cntr r) \<and> (other_ptr r = 0 \<longrightarrow> new_cntr r = cntr) \<and>
    (other_ptr r \<noteq> 0 \<longrightarrow>
           hdr_size (new_cntr r) = (if has_key cntr k then hdr_size cntr else hdr_size cntr + 1) \<and>
           (\<forall>k' v'. holds (new_cntr r) k' v' \<longleftrightarrow>
              (if k' = k then (if has_key cntr k \<and> \<not> replace then holds cntr k v' else v' = e)
               else holds cntr k' v')) \<and>
           of_nat (hdr_size (new_cntr r)) \<le> of_nat (hdr_cap (new_cntr r)) * max_load \<and>
           hdr_cap cntr \<le> hdr_cap (new_cntr r))"
  proof (cases "of_nat (hdr_size cntr + 1) > of_nat (hdr_cap cntr) * max_load")
    case grow: True
    then obtain evs1 r1 where rs:
      "cc4_map_reserve cntr (hdr_size cntr + 1) el_size layout hash max_load realloc' =
         Some (evs1 :: 'd event list, r1)"
      using res st by (auto simp: cc4_map_insert_def cc4_map_size_def cc4_map_cap_def
          split: option.splits)
    show ?thesis
    proof (cases "other_ptr r1 = 0")
      case True
      then have r: "r = r1" using res st grow rs
        by (simp add: cc4_map_insert_def cc4_map_size_def cc4_map_cap_def)
      note ri = cc4_map_reserve_inv[OF inv ml rs bound[unfolded r]]
      show ?thesis using ri(1) ri(6)[OF True] True by (simp add: r)
    next
      case False
      then obtain evs2 cntr' itr where ir:
        "cc4_map_insert_raw (new_cntr r1) e k replace el_size layout hash cmpr el_dtor key_dtor =
           Some (evs2, cntr', itr)"
        and r: "r = cc4_make_allocing_fn_result cntr' itr"
        using res st grow rs
        by (auto simp: cc4_map_insert_def cc4_map_size_def cc4_map_cap_def split: option.splits)
      have "hdr_cap cntr' = hdr_cap (new_cntr r1)"
        using insert_raw_loop_frame[OF ir[unfolded cc4_map_insert_raw_def]] by simp
      then have b1: "hdr_cap (new_cntr r1) \<le> 2 ^ 31"
        using bound by (simp add: r cc4_make_allocing_fn_result_def)
      note ri = cc4_map_reserve_inv[OF inv ml rs b1]
      have ld: "of_nat (hdr_size cntr + 1) \<le> of_nat (hdr_cap (new_cntr r1)) * max_load"
        using ri(5)[OF False] .
      have room: "hdr_size (new_cntr r1) < hdr_cap (new_cntr r1)"
        using load_room[OF ld ml0(2,1)] ri(2) by simp
      have hk: "has_key (new_cntr r1) k \<longleftrightarrow> has_key cntr k"
        using ri(3) by (simp add: has_key_holds)
      from cc4_map_insert_raw_spec[OF ri(1) cm room, of e k replace el_size layout el_dtor key_dtor]
        ir
      have sp: "itr \<noteq> 0" "rh_inv hash cntr'" "hdr_cap cntr' = hdr_cap (new_cntr r1)"
        "hdr_size cntr' = (if has_key cntr k then hdr_size cntr else hdr_size cntr + 1)"
        "\<forall>k' v'. holds cntr' k' v' \<longleftrightarrow>
              (if k' = k then (if has_key cntr k \<and> \<not> replace then holds cntr k v' else v' = e)
               else holds cntr k' v')"
        using hk ri(2) ri(3) by auto
      have "(of_nat (hdr_size cntr') :: rat) \<le> of_nat (hdr_size cntr + 1)"
        using sp(4) by simp
      with ld have "of_nat (hdr_size cntr') \<le> of_nat (hdr_cap cntr') * max_load"
        using sp(3) by simp
      then show ?thesis
        using sp ri(4) by (simp add: r cc4_make_allocing_fn_result_def)
    qed
  next
    case nogrow: False
    then have ld: "of_nat (hdr_size cntr + 1) \<le> of_nat (hdr_cap cntr) * max_load" by simp
    have room: "hdr_size cntr < hdr_cap cntr" using load_room[OF ld ml0(2,1)] .
    from nogrow obtain evs2 cntr' itr where ir:
      "cc4_map_insert_raw cntr e k replace el_size layout hash cmpr el_dtor key_dtor =
         Some (evs2, cntr', itr)"
      and r: "r = cc4_make_allocing_fn_result cntr' itr"
      using res st
      by (auto simp: cc4_map_insert_def cc4_map_size_def cc4_map_cap_def split: option.splits)
    from cc4_map_insert_raw_spec[OF inv cm room, of e k replace el_size layout el_dtor key_dtor]
      ir
    have sp: "itr \<noteq> 0" "rh_inv hash cntr'" "hdr_cap cntr' = hdr_cap cntr"
      "hdr_size cntr' = (if has_key cntr k then hdr_size cntr else hdr_size cntr + 1)"
      "\<forall>k' v'. holds cntr' k' v' \<longleftrightarrow>
            (if k' = k then (if has_key cntr k \<and> \<not> replace then holds cntr k v' else v' = e)
             else holds cntr k' v')"
      by auto
    have "(of_nat (hdr_size cntr') :: rat) \<le> of_nat (hdr_size cntr + 1)"
      using sp(4) by simp
    with ld have "of_nat (hdr_size cntr') \<le> of_nat (hdr_cap cntr') * max_load"
      using sp(3) by simp
    then show ?thesis
      using sp by (simp add: r cc4_make_allocing_fn_result_def)
  qed
  then show "rh_inv hash (new_cntr r)"
    and "other_ptr r = 0 \<Longrightarrow> new_cntr r = cntr"
    and "other_ptr r \<noteq> 0 \<Longrightarrow>
           hdr_size (new_cntr r) = (if has_key cntr k then hdr_size cntr else hdr_size cntr + 1) \<and>
           (\<forall>k' v'. holds (new_cntr r) k' v' \<longleftrightarrow>
              (if k' = k then (if has_key cntr k \<and> \<not> replace then holds cntr k v' else v' = e)
               else holds cntr k' v')) \<and>
           of_nat (hdr_size (new_cntr r)) \<le> of_nat (hdr_cap (new_cntr r)) * max_load \<and>
           hdr_cap cntr \<le> hdr_cap (new_cntr r)"
    by simp_all
qed

section \<open>Erasure under the invariant\<close>

lemma suc_mod_cancel:
  assumes "(a + 1) mod n = (b + 1) mod (n::nat)"
  shows "a mod n = b mod n"
proof -
  have "Suc a mod n = Suc b mod n" using assms by simp
  then show ?thesis
    by (simp add: mod_Suc split: if_splits)
qed

lemma sum_list_map_update:
  fixes f :: "'a \<Rightarrow> nat"
  assumes "k < length xs"
  shows "sum_list (map f (xs[k := x])) + f (xs ! k) = sum_list (map f xs) + f x"
proof -
  have "sum_list (map f (xs[k := x])) = sum_list ((map f xs)[k := f x])"
    by (simp add: map_update)
  also have "\<dots> = sum_list (map f xs) + f x - f (xs ! k)"
    using assms by (simp add: sum_list_update)
  finally have e: "sum_list (map f (xs[k := x])) = sum_list (map f xs) + f x - f (xs ! k)" .
  have "f (xs ! k) \<le> sum_list (map f xs)"
    using assms by (simp add: member_le_sum_list)
  with e show ?thesis by simp
qed

lemma hole_invD:
  assumes "hole_inv hash cntr i"
  shows "length (buckets cntr) = hdr_cap cntr" "\<exists>j\<le>31. hdr_cap cntr = 2 ^ j"
    "i < hdr_cap cntr" "pl cntr i = 0" "size_ok cntr" "homes_ok hash cntr" "keys_distinct cntr"
    "\<And>x. x < hdr_cap cntr \<Longrightarrow> x \<noteq> i \<Longrightarrow>
        pl cntr ((x + 1) mod hdr_cap cntr) \<le> pl cntr x + 1"
    "\<And>x. x < hdr_cap cntr \<Longrightarrow> (x + 1) mod hdr_cap cntr = i \<Longrightarrow>
        pl cntr ((i + 1) mod hdr_cap cntr) \<le> pl cntr x + 2"
  using assms by (auto simp: hole_inv_def)

lemma hole_invI:
  assumes "length (buckets cntr) = hdr_cap cntr" "\<exists>j\<le>31. hdr_cap cntr = 2 ^ j"
    "i < hdr_cap cntr" "pl cntr i = 0" "size_ok cntr" "homes_ok hash cntr" "keys_distinct cntr"
    "\<And>x. x < hdr_cap cntr \<Longrightarrow> x \<noteq> i \<Longrightarrow>
        pl cntr ((x + 1) mod hdr_cap cntr) \<le> pl cntr x + 1"
    "\<And>x. x < hdr_cap cntr \<Longrightarrow> (x + 1) mod hdr_cap cntr = i \<Longrightarrow>
        pl cntr ((i + 1) mod hdr_cap cntr) \<le> pl cntr x + 2"
  shows "hole_inv hash cntr i"
  unfolding hole_inv_def using assms by blast

lemma hole_stop:
  assumes h: "hole_inv hash cntr i" and st: "pl cntr ((i + 1) mod hdr_cap cntr) \<le> 1"
  shows "rh_inv hash cntr"
proof -
  note d = hole_invD[OF h]
  have "order_ok cntr"
    unfolding order_ok_def
  proof (intro allI impI)
    fix x assume x: "x < hdr_cap cntr"
    show "pl cntr ((x + 1) mod hdr_cap cntr) \<le> pl cntr x + 1"
    proof (cases "x = i")
      case True
      with st show ?thesis by simp
    next
      case False
      with d(8)[OF x] show ?thesis by simp
    qed
  qed
  with d show ?thesis by (auto simp: rh_inv_def shape_ok_def)
qed


lemma hole_move:
  fixes cntr :: "('k, 'v) cc4_map"
  assumes h: "hole_inv hash cntr i" and mv: "1 < pl cntr ((i + 1) mod hdr_cap cntr)"
  defines "nxt \<equiv> (i + 1) mod hdr_cap cntr"
  defines "moved \<equiv> (buckets cntr)
                 [i := (buckets cntr ! i)
                    \<lparr>bkt_key := bkt_key (buckets cntr ! nxt),
                     bkt_el := bkt_el (buckets cntr ! nxt),
                     bkt_probelen := bkt_probelen (buckets cntr ! nxt) - 1\<rparr>]"
  defines "cntr' \<equiv> cntr\<lparr>buckets := moved[nxt := (moved ! nxt)\<lparr>bkt_probelen := 0\<rparr>]\<rparr>"
  shows "hole_inv hash cntr' nxt"
    and "holds cntr' k v \<longleftrightarrow> holds cntr k v"
    and "sum_list (map bkt_probelen (buckets cntr')) < sum_list (map bkt_probelen (buckets cntr))"
proof -
  define n where "n = hdr_cap cntr"
  note d = hole_invD[OF h, folded n_def]
  have n_pos: "0 < n" using d(3) by simp
  have i: "i < n" by (rule d(3))
  have nx: "nxt < n" using n_pos by (simp add: nxt_def n_def)
  have nxt_eq: "nxt = (i + 1) mod n" by (simp add: nxt_def n_def)
  define q where "q = pl cntr nxt"
  have q: "1 < q" using mv by (simp add: q_def nxt_def)
  have ne: "nxt \<noteq> i" using q d(4) by (auto simp: q_def)
  have n': "hdr_cap cntr' = n" "length (buckets cntr') = n"
    by (simp_all add: cntr'_def moved_def n_def d(1))
  have bi: "buckets cntr' ! i = \<lparr>bkt_el = bkt_el (buckets cntr ! nxt),
              bkt_key = bkt_key (buckets cntr ! nxt), bkt_probelen = q - 1\<rparr>"
    using i nx ne by (simp add: cntr'_def moved_def d(1) q_def)
  have bn: "buckets cntr' ! nxt = (buckets cntr ! nxt)\<lparr>bkt_probelen := 0\<rparr>"
    using i nx ne by (simp add: cntr'_def moved_def d(1))
  have bo: "buckets cntr' ! x = buckets cntr ! x" if "x < n" "x \<noteq> i" "x \<noteq> nxt" for x
    using that by (simp add: cntr'_def moved_def d(1))
  have pl': "pl cntr' x = (if x = nxt then 0 else if x = i then q - 1 else pl cntr x)"
    if "x < n" for x
    using that bi bn bo[OF that] by auto
  have hm: "\<And>x. x < n \<Longrightarrow> pl cntr x \<le> n \<and> (pl cntr x \<noteq> 0 \<longrightarrow>
              (hash (bkt_key (buckets cntr ! x)) + (pl cntr x - 1)) mod n = x)"
    using d(6) by (auto simp: homes_ok_def n_def)
  have kd: "\<And>x y. x < n \<Longrightarrow> y < n \<Longrightarrow> pl cntr x \<noteq> 0 \<Longrightarrow> pl cntr y \<noteq> 0 \<Longrightarrow>
              bkt_key (buckets cntr ! x) = bkt_key (buckets cntr ! y) \<Longrightarrow> x = y"
    using d(7) by (auto simp: keys_distinct_def n_def)
  have occn: "pl cntr nxt \<noteq> 0" using q by (simp add: q_def)
  show "hole_inv hash cntr' nxt"
  proof (rule hole_invI; (unfold n')?)
    show "n = n" ..
    show "\<exists>j\<le>31. n = 2 ^ j" by (rule d(2))
    show "nxt < n" by (rule nx)
    show "pl cntr' nxt = 0" using pl'[OF nx] by simp
    show "size_ok cntr'"
    proof -
      define S where "S = {x. x < n \<and> pl cntr x \<noteq> 0}"
      have e: "{x. x < n \<and> pl cntr' x \<noteq> 0} = insert i (S - {nxt})"
        using pl' q i ne by (auto simp: S_def split: if_splits)
      have ni: "i \<notin> S - {nxt}" using d(4) by (simp add: S_def)
      have mem: "nxt \<in> S" using nx occn by (simp add: S_def)
      have fin: "finite S" by (simp add: S_def)
      have "card (insert i (S - {nxt})) = Suc (card (S - {nxt}))"
        using ni fin by simp
      moreover have "card (S - {nxt}) = card S - 1"
        using mem by (simp add: card_Diff_singleton)
      moreover have "0 < card S" using mem fin by (auto simp: card_gt_0_iff)
      ultimately have "card {x. x < n \<and> pl cntr' x \<noteq> 0} = card {x. x < n \<and> pl cntr x \<noteq> 0}"
        unfolding e by (simp add: S_def)
      then show ?thesis
        using d(5) by (simp add: size_ok_def n' n_def[symmetric] cntr'_def)
    qed
    show "homes_ok hash cntr'"
      unfolding homes_ok_def n'
    proof (intro allI impI)
      fix x assume x: "x < n"
      show "pl cntr' x \<le> n \<and> (pl cntr' x \<noteq> 0 \<longrightarrow>
              (hash (bkt_key (buckets cntr' ! x)) + (pl cntr' x - 1)) mod n = x)"
      proof (cases "x = i")
        case True
        define a where "a = hash (bkt_key (buckets cntr ! nxt)) + (q - 1 - 1)"
        have h1: "(hash (bkt_key (buckets cntr ! nxt)) + (q - 1)) mod n = nxt"
          using hm[OF nx] occn unfolding q_def by blast
        have "a + 1 = hash (bkt_key (buckets cntr ! nxt)) + (q - 1)"
          using q by (simp add: a_def)
        with h1 have "(a + 1) mod n = nxt" by simp
        then have "(a + 1) mod n = (i + 1) mod n" unfolding nxt_eq .
        then have "a mod n = i mod n" by (rule suc_mod_cancel)
        then have "(hash (bkt_key (buckets cntr ! nxt)) + (q - 1 - 1)) mod n = i"
          using i by (simp add: a_def)
        moreover have "q \<le> n" using hm[OF nx] by (simp add: q_def)
        ultimately show ?thesis using True bi i q by simp
      next
        case False
        show ?thesis
        proof (cases "x = nxt")
          case True
          then show ?thesis using bn by simp
        next
          case False
          with \<open>x \<noteq> i\<close> hm[OF x] bo[OF x] show ?thesis by simp
        qed
      qed
    qed
    show "keys_distinct cntr'"
      unfolding keys_distinct_def n'
    proof (intro allI impI)
      fix x y assume x: "x < n" and y: "y < n"
        and hh: "pl cntr' x \<noteq> 0 \<and> pl cntr' y \<noteq> 0 \<and>
                bkt_key (buckets cntr' ! x) = bkt_key (buckets cntr' ! y)"
      have xn: "x \<noteq> nxt" and yn: "y \<noteq> nxt" using hh pl'[OF x] pl'[OF y] by auto
      have kx: "bkt_key (buckets cntr' ! x) =
                  bkt_key (buckets cntr ! (if x = i then nxt else x))"
        using bi bo[OF x _ xn] by auto
      have ky: "bkt_key (buckets cntr' ! y) =
                  bkt_key (buckets cntr ! (if y = i then nxt else y))"
        using bi bo[OF y _ yn] by auto
      have ox: "pl cntr (if x = i then nxt else x) \<noteq> 0"
        using hh pl'[OF x] xn occn by auto
      have oy: "pl cntr (if y = i then nxt else y) \<noteq> 0"
        using hh pl'[OF y] yn occn by auto
      have "(if x = i then nxt else x) = (if y = i then nxt else y)"
        using kd[OF _ _ ox oy] hh kx ky x y nx by auto
      then show "x = y" using xn yn by (auto split: if_splits)
    qed
    show "pl cntr' ((x + 1) mod n) \<le> pl cntr' x + 1" if x: "x < n" and xne: "x \<noteq> nxt" for x
    proof -
      have y: "(x + 1) mod n < n" using n_pos by simp
      show ?thesis
      proof (cases "x = i")
        case True
        then show ?thesis using pl'[OF y] by (simp add: nxt_eq)
      next
        case False
        have yn: "(x + 1) mod n \<noteq> nxt"
          using suc_mod_inj[OF x i] False by (auto simp: nxt_eq)
        show ?thesis
        proof (cases "(x + 1) mod n = i")
          case True
          from d(9)[OF x True] have "q \<le> pl cntr x + 2" by (simp add: q_def nxt_eq)
          then show ?thesis using pl'[OF x] pl'[OF y] True False xne ne by auto
        next
          case yi: False
          with d(8)[OF x False] show ?thesis
            using pl'[OF x] pl'[OF y] False xne yn by auto
        qed
      qed
    qed
    show "pl cntr' ((nxt + 1) mod n) \<le> pl cntr' x + 2"
      if x: "x < n" and e: "(x + 1) mod n = nxt" for x
    proof -
      have xi: "x = i" using suc_mod_inj[OF x i] e by (simp add: nxt_eq)
      have z: "(nxt + 1) mod n < n" using n_pos by simp
      have "pl cntr ((nxt + 1) mod n) \<le> q + 1"
        using d(8)[OF nx ne] by (simp add: q_def)
      then show ?thesis
        using pl'[OF z] pl'[OF i] xi ne q by auto
    qed
  qed
  show "holds cntr' k v \<longleftrightarrow> holds cntr k v"
  proof
    assume "holds cntr' k v"
    then obtain x where x: "x < n" "pl cntr' x \<noteq> 0" "bkt_key (buckets cntr' ! x) = k"
      "bkt_el (buckets cntr' ! x) = v" by (auto simp: holds_def n')
    have xn: "x \<noteq> nxt" using x(2) pl'[OF x(1)] by auto
    show "holds cntr k v"
    proof (cases "x = i")
      case True
      with x bi nx occn show ?thesis by (auto simp: holds_def n_def)
    next
      case False
      with x xn bo[OF x(1) False xn] pl'[OF x(1)] show ?thesis
        by (auto simp: holds_def n_def)
    qed
  next
    assume "holds cntr k v"
    then obtain x where x: "x < n" "pl cntr x \<noteq> 0" "bkt_key (buckets cntr ! x) = k"
      "bkt_el (buckets cntr ! x) = v" by (auto simp: holds_def n_def)
    have xi: "x \<noteq> i" using x(2) d(4) by auto
    show "holds cntr' k v"
    proof (cases "x = nxt")
      case True
      with x bi i q pl'[OF i] ne show ?thesis by (auto simp: holds_def n' q_def)
    next
      case False
      with x xi bo[OF x(1) xi False] pl'[OF x(1)] show ?thesis
        by (auto simp: holds_def n')
    qed
  qed
  show "sum_list (map bkt_probelen (buckets cntr')) < sum_list (map bkt_probelen (buckets cntr))"
  proof -
    have li: "i < length (buckets cntr)" using i d(1) by simp
    have ln: "nxt < length moved" using nx d(1) by (simp add: moved_def)
    have mn: "moved ! nxt = buckets cntr ! nxt" using ne nx d(1) by (simp add: moved_def)
    from sum_list_map_update[OF li, of bkt_probelen] d(4)
    have s1: "sum_list (map bkt_probelen moved) = sum_list (map bkt_probelen (buckets cntr)) + (q - 1)"
      by (simp add: moved_def q_def)
    from sum_list_map_update[OF ln, of bkt_probelen "(moved ! nxt)\<lparr>bkt_probelen := 0\<rparr>"]
    have s2: "sum_list (map bkt_probelen (buckets cntr')) + q = sum_list (map bkt_probelen moved)"
      by (simp add: cntr'_def mn q_def)
    from s1 s2 q show ?thesis by simp
  qed
qed


lemma erase_shift_ok:
  fixes cntr :: "('k, 'v) cc4_map"
  assumes "hole_inv hash cntr i"
  shows "\<exists>cntr'. erase_shift cntr i = Some cntr' \<and> rh_inv hash cntr' \<and>
           (\<forall>k v. holds cntr' k v \<longleftrightarrow> holds cntr k v) \<and>
           hdr_size cntr' = hdr_size cntr \<and> hdr_cap cntr' = hdr_cap cntr \<and>
           hndl cntr' = hndl cntr"
  using assms
proof (induction "sum_list (map bkt_probelen (buckets cntr))" arbitrary: cntr i rule: less_induct)
  case less
  note h = less.prems
  note d = hole_invD[OF h]
  note pw = pow2_cap_facts[OF d(2)]
  define nxt where "nxt = (i + 1) mod hdr_cap cntr"
  have nx: "nxt < hdr_cap cntr" using pw(2) by (simp add: nxt_def)
  have nb: "next_bucket (hdr_cap cntr) i = nxt" by (simp add: pw(3) nxt_def)
  show ?case
  proof (cases "pl cntr nxt \<le> 1")
    case True
    have "erase_shift cntr i = Some cntr"
      using True d(1,3) nx nb by (subst erase_shift.simps) (simp add: Let_def)
    with hole_stop[OF h True[unfolded nxt_def]] show ?thesis by simp
  next
    case False
    then have mv: "1 < pl cntr ((i + 1) mod hdr_cap cntr)" by (simp add: nxt_def)
    define moved where "moved = (buckets cntr)
                 [i := (buckets cntr ! i)
                    \<lparr>bkt_key := bkt_key (buckets cntr ! nxt),
                     bkt_el := bkt_el (buckets cntr ! nxt),
                     bkt_probelen := bkt_probelen (buckets cntr ! nxt) - 1\<rparr>]"
    define c1 where "c1 = cntr\<lparr>buckets := moved[nxt := (moved ! nxt)\<lparr>bkt_probelen := 0\<rparr>]\<rparr>"
    note hmv = hole_move[OF h mv, folded nxt_def, folded moved_def, folded c1_def]
    from less.hyps[OF hmv(3) hmv(1)] obtain cntr' where r:
      "erase_shift c1 nxt = Some cntr'" "rh_inv hash cntr'"
      "\<forall>k v. holds cntr' k v \<longleftrightarrow> holds c1 k v"
      "hdr_size cntr' = hdr_size c1" "hdr_cap cntr' = hdr_cap c1" "hndl cntr' = hndl c1"
      by blast
    have "erase_shift cntr i = Some cntr'"
      using False d(1,3) nx nb r(1)
      by (subst erase_shift.simps) (simp add: Let_def moved_def c1_def)
    moreover have "\<forall>k v. holds cntr' k v \<longleftrightarrow> holds cntr k v"
      using r(3) hmv(2) by simp
    moreover have "hdr_size c1 = hdr_size cntr" "hdr_cap c1 = hdr_cap cntr" "hndl c1 = hndl cntr"
      by (simp_all add: c1_def)
    ultimately show ?thesis using r by simp
  qed
qed

lemma bucket_size_pos: "0 < CC4_BUCKET_SIZE el_size layout"
  by (simp add: CC4_BUCKET_SIZE_def sizeof_probelen_def)

lemma cc4_map_el_index:
  "cc4_map_el h 0 el_size layout \<le> cc4_map_el h x el_size layout"
  "(cc4_map_el h x el_size layout - cc4_map_el h 0 el_size layout)
     div CC4_BUCKET_SIZE el_size layout = x"
  using bucket_size_pos[of el_size layout] by (simp_all add: cc4_map_el_def)

lemma vacate_hole:
  fixes cntr :: "('k, 'v) cc4_map"
  assumes inv: "rh_inv hash cntr" and x: "x < hdr_cap cntr" "pl cntr x \<noteq> 0"
  defines "c0 \<equiv> cntr\<lparr>buckets := (buckets cntr)[x := (buckets cntr ! x)\<lparr>bkt_probelen := 0\<rparr>],
                       hdr_size := size_t_dec (hdr_size cntr)\<rparr>"
  shows "hole_inv hash c0 x"
    and "holds c0 k' v' \<longleftrightarrow> holds cntr k' v' \<and> k' \<noteq> bkt_key (buckets cntr ! x)"
    and "hdr_size c0 = hdr_size cntr - 1" "hdr_cap c0 = hdr_cap cntr" "hndl c0 = hndl cntr"
proof -
  define n where "n = hdr_cap cntr"
  have pos: "0 < n" using x(1) by (simp add: n_def)
  note sh = shape_ok_pos[OF rh_invD(1)[OF inv] pos[unfolded n_def], folded n_def]
  have xn: "x < n" using x(1) by (simp add: n_def)
  have n': "hdr_cap c0 = n" "length (buckets c0) = n"
    by (simp_all add: c0_def n_def sh(1))
  have bx: "buckets c0 ! x = (buckets cntr ! x)\<lparr>bkt_probelen := 0\<rparr>"
    using xn by (simp add: c0_def sh(1))
  have bo: "buckets c0 ! y = buckets cntr ! y" if "y < n" "y \<noteq> x" for y
    using that by (simp add: c0_def sh(1))
  have pl': "pl c0 y = (if y = x then 0 else pl cntr y)" if "y < n" for y
    using that bx bo[OF that] by auto
  have hm: "\<And>y. y < n \<Longrightarrow> pl cntr y \<le> n \<and> (pl cntr y \<noteq> 0 \<longrightarrow>
              (hash (bkt_key (buckets cntr ! y)) + (pl cntr y - 1)) mod n = y)"
    using rh_invD(3)[OF inv] by (auto simp: homes_ok_def n_def)
  have kd: "\<And>y z. y < n \<Longrightarrow> z < n \<Longrightarrow> pl cntr y \<noteq> 0 \<Longrightarrow> pl cntr z \<noteq> 0 \<Longrightarrow>
              bkt_key (buckets cntr ! y) = bkt_key (buckets cntr ! z) \<Longrightarrow> y = z"
    using rh_invD(5)[OF inv] by (auto simp: keys_distinct_def n_def)
  have ord: "\<And>y. y < n \<Longrightarrow> pl cntr ((y + 1) mod n) \<le> pl cntr y + 1"
    using rh_invD(4)[OF inv] by (simp add: order_ok_def n_def)
  define S where "S = {y. y < n \<and> pl cntr y \<noteq> 0}"
  have szS: "hdr_size cntr = card S"
    using rh_invD(2)[OF inv] by (simp add: size_ok_def S_def n_def)
  have mem: "x \<in> S" using xn x(2) by (simp add: S_def)
  have fin: "finite S" by (simp add: S_def)
  have cpos: "0 < card S" using mem fin by (auto simp: card_gt_0_iff)
  have "card S \<le> n" unfolding S_def by (rule card_occupied_le)
  then have "hdr_size cntr \<le> 2 ^ 64" using szS sh(2) by simp
  then have dec: "size_t_dec (hdr_size cntr) = hdr_size cntr - 1"
    using cpos szS by (intro size_t_dec_pos) simp_all
  show "hdr_size c0 = hdr_size cntr - 1" "hdr_cap c0 = hdr_cap cntr" "hndl c0 = hndl cntr"
    using dec by (simp_all add: c0_def)
  show "hole_inv hash c0 x"
  proof (rule hole_invI; (unfold n')?)
    show "n = n" ..
    show "\<exists>j\<le>31. n = 2 ^ j" using rh_inv_pow2[OF inv] pos by (simp add: n_def)
    show "x < n" by (rule xn)
    show "pl c0 x = 0" using pl'[OF xn] by simp
    show "size_ok c0"
    proof -
      have "{y. y < n \<and> pl c0 y \<noteq> 0} = S - {x}"
        using pl' by (auto simp: S_def split: if_splits)
      then have "card {y. y < n \<and> pl c0 y \<noteq> 0} = card S - 1"
        using mem by (simp add: card_Diff_singleton)
      moreover have "hdr_size c0 = card S - 1" using dec szS by (simp add: c0_def)
      ultimately show ?thesis unfolding size_ok_def n' by simp
    qed
    show "homes_ok hash c0"
      unfolding homes_ok_def n'
    proof (intro allI impI)
      fix y assume y: "y < n"
      show "pl c0 y \<le> n \<and> (pl c0 y \<noteq> 0 \<longrightarrow>
              (hash (bkt_key (buckets c0 ! y)) + (pl c0 y - 1)) mod n = y)"
        using hm[OF y] pl'[OF y] bo[OF y] by (cases "y = x") auto
    qed
    show "keys_distinct c0"
      unfolding keys_distinct_def n'
    proof (intro allI impI)
      fix y z assume y: "y < n" and z: "z < n"
        and hh: "pl c0 y \<noteq> 0 \<and> pl c0 z \<noteq> 0 \<and>
                bkt_key (buckets c0 ! y) = bkt_key (buckets c0 ! z)"
      have "y \<noteq> x" "z \<noteq> x" using hh pl'[OF y] pl'[OF z] by auto
      with hh kd[OF y z] pl'[OF y] pl'[OF z] bo[OF y] bo[OF z] show "y = z" by auto
    qed
    show "pl c0 ((y + 1) mod n) \<le> pl c0 y + 1" if y: "y < n" and ne: "y \<noteq> x" for y
    proof -
      have z: "(y + 1) mod n < n" using pos by simp
      show ?thesis using ord[OF y] pl'[OF y] pl'[OF z] ne by auto
    qed
    show "pl c0 ((x + 1) mod n) \<le> pl c0 y + 2" if y: "y < n" and e: "(y + 1) mod n = x" for y
    proof -
      have z: "(x + 1) mod n < n" using pos by simp
      have "pl cntr x \<le> pl cntr y + 1" using ord[OF y] e by simp
      moreover have "pl cntr ((x + 1) mod n) \<le> pl cntr x + 1" using ord[OF xn] .
      ultimately show ?thesis using pl'[OF y] pl'[OF z] e by auto
    qed
  qed
  show "holds c0 k' v' \<longleftrightarrow> holds cntr k' v' \<and> k' \<noteq> bkt_key (buckets cntr ! x)"
  proof
    assume "holds c0 k' v'"
    then obtain y where y: "y < n" "pl c0 y \<noteq> 0" "bkt_key (buckets c0 ! y) = k'"
      "bkt_el (buckets c0 ! y) = v'" by (auto simp: holds_def n')
    have yx: "y \<noteq> x" using y(2) pl'[OF y(1)] by auto
    have "pl cntr y \<noteq> 0" using y(2) pl'[OF y(1)] yx by simp
    moreover from this have "k' \<noteq> bkt_key (buckets cntr ! x)"
      using kd[OF y(1) xn _ x(2)] yx y(3) bo[OF y(1) yx] by auto
    ultimately show "holds cntr k' v' \<and> k' \<noteq> bkt_key (buckets cntr ! x)"
      using y bo[OF y(1) yx] by (auto simp: holds_def n_def)
  next
    assume a: "holds cntr k' v' \<and> k' \<noteq> bkt_key (buckets cntr ! x)"
    then obtain y where y: "y < n" "pl cntr y \<noteq> 0" "bkt_key (buckets cntr ! y) = k'"
      "bkt_el (buckets cntr ! y) = v'" by (auto simp: holds_def n_def)
    have yx: "y \<noteq> x" using a y(3) by auto
    with y pl'[OF y(1)] bo[OF y(1) yx] show "holds c0 k' v'"
      by (auto simp: holds_def n')
  qed
qed

lemma cc4_map_erase_itr_ok:
  fixes cntr :: "('k, 'v) cc4_map"
  assumes inv: "rh_inv hash cntr" and x: "x < hdr_cap cntr" "pl cntr x \<noteq> 0"
  shows "\<exists>cntr'.
           cc4_map_erase_itr cntr (cc4_map_el (hndl cntr) x el_size layout) el_size layout
             el_dtor key_dtor =
             Some (call_dtor key_dtor (cc4_map_key (hndl cntr) x el_size layout) @
                   call_dtor el_dtor (cc4_map_el (hndl cntr) x el_size layout), cntr') \<and>
           rh_inv hash cntr' \<and>
           (\<forall>k' v'. holds cntr' k' v' \<longleftrightarrow>
              holds cntr k' v' \<and> k' \<noteq> bkt_key (buckets cntr ! x)) \<and>
           hdr_size cntr' = hdr_size cntr - 1 \<and> hdr_cap cntr' = hdr_cap cntr \<and>
           hndl cntr' = hndl cntr"
proof -
  define c0 where "c0 = cntr\<lparr>buckets := (buckets cntr)[x := (buckets cntr ! x)\<lparr>bkt_probelen := 0\<rparr>],
                       hdr_size := size_t_dec (hdr_size cntr)\<rparr>"
  note v = vacate_hole[OF inv x, folded c0_def]
  from erase_shift_ok[OF v(1)] obtain cntr' where r:
    "erase_shift c0 x = Some cntr'" "rh_inv hash cntr'"
    "\<forall>k v. holds cntr' k v \<longleftrightarrow> holds c0 k v"
    "hdr_size cntr' = hdr_size c0" "hdr_cap cntr' = hdr_cap c0" "hndl cntr' = hndl c0"
    by blast
  have len: "x < length (buckets cntr)"
    using rh_invD(1)[OF inv] x(1) by (simp add: shape_ok_def)
  have "cc4_map_erase_itr cntr (cc4_map_el (hndl cntr) x el_size layout) el_size layout
             el_dtor key_dtor =
             Some (call_dtor key_dtor (cc4_map_key (hndl cntr) x el_size layout) @
                   call_dtor el_dtor (cc4_map_el (hndl cntr) x el_size layout), cntr')"
    using r(1) len
    by (simp add: cc4_map_erase_itr_def cc4_map_el_index Let_def c0_def)
  moreover have "\<forall>k' v'. holds cntr' k' v' \<longleftrightarrow>
              holds cntr k' v' \<and> k' \<noteq> bkt_key (buckets cntr ! x)"
    using r(3) v(2) by simp
  ultimately show ?thesis using r(2,4,5,6) v(3,4,5) by simp
qed

lemma erase_loop_found:
  fixes cntr :: "('k, 'v) cc4_map"
  assumes inv: "rh_inv hash cntr" and cm: "cmpr_ok cmpr"
    and x: "x < hdr_cap cntr" "pl cntr x \<noteq> 0" "bkt_key (buckets cntr ! x) = k"
    and m: "m < pl cntr x"
  shows "erase_loop cntr k el_size layout cmpr el_dtor key_dtor
           ((hash k + m) mod hdr_cap cntr) (Suc m) =
         (case cc4_map_erase_itr cntr (cc4_map_el (hndl cntr) x el_size layout) el_size layout
                 el_dtor key_dtor of
            None \<Rightarrow> None
          | Some (evs, cntr') \<Rightarrow> Some (evs, cntr', cc4_dummy_true_ptr))"
  using m
proof (induction "pl cntr x - Suc m" arbitrary: m rule: less_induct)
  case (less m)
  define n where "n = hdr_cap cntr"
  define s where "s = (hash k + m) mod n"
  have n_pos: "0 < n" using x(1) by (simp add: n_def)
  note sh = shape_ok_pos[OF rh_invD(1)[OF inv] n_pos[unfolded n_def], folded n_def]
  have s_lt: "s < n" using n_pos by (simp add: s_def)
  have hx: "pl cntr x \<le> n" "(hash k + (pl cntr x - 1)) mod n = x"
    using rh_invD(3)[OF inv] x by (auto simp: homes_ok_def n_def)
  have ord: "\<And>y. y < n \<Longrightarrow> pl cntr ((y + 1) mod n) \<le> pl cntr y + 1"
    using rh_invD(4)[OF inv] by (simp add: order_ok_def n_def)
  have "hash k + m + (pl cntr x - Suc m) = hash k + (pl cntr x - 1)"
    using less.prems by simp
  with chain_le[of n "pl cntr" "hash k + m" "pl cntr x - Suc m", OF ord n_pos] hx(2)
  have "pl cntr x \<le> pl cntr s + (pl cntr x - Suc m)" by (simp add: s_def)
  then have ge: "Suc m \<le> pl cntr s" using less.prems by simp
  have last: "s = x" if "Suc m = pl cntr x"
    using hx(2) unfolding that[symmetric] by (simp add: s_def)
  have uniq: "s = x" if "bkt_key (buckets cntr ! s) = k"
    using rh_invD(5)[OF inv] that x s_lt ge by (auto simp: keys_distinct_def n_def)
  show ?case
  proof (cases "Suc m = pl cntr s \<and> cmpr (bkt_key (buckets cntr ! s)) k = 0")
    case True
    then have "s = x" using uniq cm by (simp add: cmpr_ok_def)
    with True s_lt ge show ?thesis
      by (subst erase_loop.simps) (simp add: sh s_def[symmetric] n_def[symmetric])
  next
    case False
    have lt: "Suc m < pl cntr x"
    proof (rule ccontr)
      assume "\<not> Suc m < pl cntr x"
      then have e: "Suc m = pl cntr x" using less.prems by simp
      from last[OF e] e x(3) False cm show False by (simp add: cmpr_ok_def)
    qed
    have "Suc (Suc m) < 2 ^ 32" using lt hx(1) sh(2) by simp
    then have pt: "probelen_ty (Suc m + 1) = Suc (Suc m)" by (simp add: probelen_ty_def)
    have nx: "(s + 1) mod n = (hash k + Suc m) mod n"
      by (simp add: s_def mod_Suc_eq)
    note ih = less.hyps[of "Suc m", folded n_def]
    show ?thesis
      apply (subst erase_loop.simps)
      using False s_lt ge pt nx ih lt less.prems
      by (auto simp: sh s_def[symmetric] n_def[symmetric])
  qed
qed

lemma erase_loop_absent:
  fixes cntr :: "('k, 'v) cc4_map"
  assumes inv: "rh_inv hash cntr" and cm: "cmpr_ok cmpr"
    and nk: "\<not> has_key cntr k"
    and i: "i < hdr_cap cntr" and c: "1 \<le> c" "c \<le> hdr_cap cntr + 1"
  shows "erase_loop cntr k el_size layout cmpr el_dtor key_dtor i c = Some ([], cntr, 0)"
  using i c
proof (induction "hdr_cap cntr + 1 - c" arbitrary: i c rule: less_induct)
  case (less c i)
  define n where "n = hdr_cap cntr"
  have n_pos: "0 < n" using less.prems(1) by (simp add: n_def)
  note sh = shape_ok_pos[OF rh_invD(1)[OF inv] n_pos[unfolded n_def], folded n_def]
  have i_lt: "i < n" using less.prems by (simp add: n_def)
  have pln: "pl cntr i \<le> n"
    using rh_invD(3)[OF inv] i_lt by (auto simp: homes_ok_def n_def)
  show ?case
  proof (cases "c \<le> pl cntr i")
    case False
    with i_lt show ?thesis
      by (subst erase_loop.simps) (simp add: sh n_def[symmetric])
  next
    case True
    then have occ: "pl cntr i \<noteq> 0" using less.prems(2) by simp
    with nk i_lt have "bkt_key (buckets cntr ! i) \<noteq> k"
      by (auto simp: has_key_def n_def)
    then have ne: "cmpr (bkt_key (buckets cntr ! i)) k \<noteq> 0" using cm by (simp add: cmpr_ok_def)
    have "c + 1 < 2 ^ 32" using True pln sh(2) by simp
    then have pt: "probelen_ty (c + 1) = c + 1" by (simp add: probelen_ty_def)
    have "erase_loop cntr k el_size layout cmpr el_dtor key_dtor ((i + 1) mod n) (c + 1) =
            Some ([], cntr, 0)"
      using less.hyps[of "c + 1" "(i + 1) mod n"] True pln n_pos less.prems
      by (simp add: n_def)
    with True ne i_lt pt show ?thesis
      by (subst erase_loop.simps) (simp add: sh n_def[symmetric])
  qed
qed

lemma rh_inv_size_pos:
  assumes "rh_inv hash cntr" "x < hdr_cap cntr" "pl cntr x \<noteq> 0"
  shows "0 < hdr_size cntr"
proof -
  have "x \<in> {x. x < hdr_cap cntr \<and> pl cntr x \<noteq> 0}" using assms(2,3) by simp
  moreover have "finite {x. x < hdr_cap cntr \<and> pl cntr x \<noteq> 0}" by simp
  ultimately have "0 < card {x. x < hdr_cap cntr \<and> pl cntr x \<noteq> 0}"
    by (auto simp: card_gt_0_iff)
  then show ?thesis using rh_invD(2)[OF assms(1)] by (simp add: size_ok_def)
qed

lemma rh_inv_cap_pos:
  assumes "rh_inv hash cntr" "hdr_size cntr \<noteq> 0"
  shows "0 < hdr_cap cntr"
  using rh_inv_size_le[OF assms(1)] assms(2) by simp

text \<open>Erasing a key that the table holds.\<close>

lemma cc4_map_erase_present:
  fixes cntr :: "('k, 'v) cc4_map"
  assumes inv: "rh_inv hash cntr" and cm: "cmpr_ok cmpr" and hk: "has_key cntr k"
  shows "\<exists>evs cntr'.
           cc4_map_erase cntr k el_size layout hash cmpr el_dtor key_dtor =
             Some (evs, cntr', cc4_dummy_true_ptr) \<and>
           rh_inv hash cntr' \<and>
           (\<forall>k' v'. holds cntr' k' v' \<longleftrightarrow> holds cntr k' v' \<and> k' \<noteq> k) \<and>
           hdr_size cntr' + 1 = hdr_size cntr \<and> hdr_cap cntr' = hdr_cap cntr \<and>
           hndl cntr' = hndl cntr"
proof -
  from hk obtain x where x: "x < hdr_cap cntr" "pl cntr x \<noteq> 0" "bkt_key (buckets cntr ! x) = k"
    by (auto simp: has_key_def)
  have pos: "0 < hdr_cap cntr" using x(1) by simp
  note sh = shape_ok_pos[OF rh_invD(1)[OF inv] pos]
  have sz: "0 < hdr_size cntr" by (rule rh_inv_size_pos[OF inv x(1,2)])
  from cc4_map_erase_itr_ok[OF inv x(1,2), of el_size layout el_dtor key_dtor]
  obtain cntr' where r:
    "cc4_map_erase_itr cntr (cc4_map_el (hndl cntr) x el_size layout) el_size layout
             el_dtor key_dtor =
             Some (call_dtor key_dtor (cc4_map_key (hndl cntr) x el_size layout) @
                   call_dtor el_dtor (cc4_map_el (hndl cntr) x el_size layout), cntr')"
    "rh_inv hash cntr'"
    "\<forall>k' v'. holds cntr' k' v' \<longleftrightarrow> holds cntr k' v' \<and> k' \<noteq> bkt_key (buckets cntr ! x)"
    "hdr_size cntr' = hdr_size cntr - 1" "hdr_cap cntr' = hdr_cap cntr" "hndl cntr' = hndl cntr"
    by blast
  have m: "0 < pl cntr x" using x(2) by simp
  from erase_loop_found[OF inv cm x m, of el_size layout el_dtor key_dtor] r(1)
  have "cc4_map_erase cntr k el_size layout hash cmpr el_dtor key_dtor =
          Some (call_dtor key_dtor (cc4_map_key (hndl cntr) x el_size layout) @
                call_dtor el_dtor (cc4_map_el (hndl cntr) x el_size layout), cntr',
                cc4_dummy_true_ptr)"
    using sz by (simp add: cc4_map_erase_def cc4_map_size_def sh)
  then show ?thesis using r x(3) sz by auto
qed

lemma cc4_map_erase_absent:
  fixes cntr :: "('k, 'v) cc4_map"
  assumes inv: "rh_inv hash cntr" and cm: "cmpr_ok cmpr" and nk: "\<not> has_key cntr k"
  shows "cc4_map_erase cntr k el_size layout hash cmpr el_dtor key_dtor = Some ([], cntr, 0)"
proof (cases "hdr_size cntr = 0")
  case True
  then show ?thesis by (simp add: cc4_map_erase_def cc4_map_size_def)
next
  case False
  have pos: "0 < hdr_cap cntr" by (rule rh_inv_cap_pos[OF inv False])
  note sh = shape_ok_pos[OF rh_invD(1)[OF inv] pos]
  have "erase_loop cntr k el_size layout cmpr el_dtor key_dtor (hash k mod hdr_cap cntr) 1 =
          Some ([], cntr, 0)"
    using pos by (intro erase_loop_absent[OF inv cm nk]) simp_all
  with False show ?thesis by (simp add: cc4_map_erase_def cc4_map_size_def sh)
qed

lemma cc4_map_erase_inv:
  fixes cntr :: "('k, 'v) cc4_map"
  assumes inv: "rh_inv hash cntr" and cm: "cmpr_ok cmpr"
    and res: "cc4_map_erase cntr k el_size layout hash cmpr el_dtor key_dtor = Some (evs, cntr', p)"
  shows "rh_inv hash cntr'"
proof (cases "has_key cntr k")
  case True
  from cc4_map_erase_present[OF inv cm True, of el_size layout el_dtor key_dtor] res
  show ?thesis by auto
next
  case False
  from cc4_map_erase_absent[OF inv cm False, of el_size layout el_dtor key_dtor] res inv
  show ?thesis by simp
qed

text \<open>Lookup of a key that the table holds, and of one it does not hold.\<close>

lemma cc4_map_get_found:
  fixes cntr :: "('k, 'v) cc4_map"
  assumes inv: "rh_inv hash cntr" and cm: "cmpr_ok cmpr"
    and x: "x < hdr_cap cntr" "pl cntr x \<noteq> 0" "bkt_key (buckets cntr ! x) = k"
  shows "cc4_map_get cntr k el_size layout hash cmpr =
           Some (cc4_map_el (hndl cntr) x el_size layout)"
proof -
  have pos: "0 < hdr_cap cntr" using x(1) by simp
  note sh = shape_ok_pos[OF rh_invD(1)[OF inv] pos]
  have sz: "0 < hdr_size cntr" by (rule rh_inv_size_pos[OF inv x(1,2)])
  have m: "0 < pl cntr x" using x(2) by simp
  from get_loop_found[OF inv cm x m, of el_size layout] sz
  show ?thesis by (simp add: cc4_map_get_def cc4_map_size_def sh)
qed

lemma cc4_map_get_absent:
  fixes cntr :: "('k, 'v) cc4_map"
  assumes inv: "rh_inv hash cntr" and cm: "cmpr_ok cmpr" and nk: "\<not> has_key cntr k"
  shows "cc4_map_get cntr k el_size layout hash cmpr = Some 0"
proof (cases "hdr_size cntr = 0")
  case True
  then show ?thesis by (simp add: cc4_map_get_def cc4_map_size_def)
next
  case False
  have pos: "0 < hdr_cap cntr" by (rule rh_inv_cap_pos[OF inv False])
  note sh = shape_ok_pos[OF rh_invD(1)[OF inv] pos]
  have "get_loop cntr k el_size layout cmpr (hash k mod hdr_cap cntr) 1 = Some 0"
    using pos by (intro get_loop_absent[OF inv cm nk]) simp_all
  with False show ?thesis by (simp add: cc4_map_get_def cc4_map_size_def sh)
qed

lemma get_returns_holds:
  fixes cntr :: "('k, 'v) cc4_map"
  assumes inv: "rh_inv hash cntr" and cm: "cmpr_ok cmpr"
  shows "get_returns cntr k v el_size layout hash cmpr \<longleftrightarrow> holds cntr k v"
proof
  assume "get_returns cntr k v el_size layout hash cmpr"
  then show "holds cntr k v" by (auto simp: get_returns_def holds_def)
next
  assume "holds cntr k v"
  then obtain x where x: "x < hdr_cap cntr" "pl cntr x \<noteq> 0" "bkt_key (buckets cntr ! x) = k"
    "bkt_el (buckets cntr ! x) = v" by (auto simp: holds_def)
  from cc4_map_get_found[OF inv cm x(1,2,3), of el_size layout] x
  show "get_returns cntr k v el_size layout hash cmpr"
    by (auto simp: get_returns_def)
qed

section \<open>Reachable tables\<close>

lemma min_cap_le_bound:
  assumes c: "cc4_map_min_cap_for_n_els n max_load = Some c"
    and n: "0 < n" "of_nat n \<le> 2 ^ 31 * max_load"
  shows "\<exists>j\<le>31. c = 2 ^ j"
proof -
  from cc4_map_min_cap_for_n_els_result[OF c] n(1) obtain j where
    j: "c = 8 * 2 ^ j" "\<forall>i<j. of_nat n > of_nat (8 * 2 ^ i :: nat) * max_load"
    by auto
  have "j \<le> 28"
  proof (rule ccontr)
    assume "\<not> j \<le> 28"
    then have "28 < j" by simp
    with j(2) have "of_nat n > of_nat (8 * 2 ^ 28 :: nat) * max_load" by blast
    moreover have "(of_nat (8 * 2 ^ 28 :: nat) :: rat) = 2 ^ 31" by simp
    ultimately show False using n(2) by simp
  qed
  then have "c = 2 ^ (j + 3)" "j + 3 \<le> 31" using j(1) by (simp_all add: power_add)
  then show ?thesis by blast
qed

lemma cc4_map_insert_returns:
  fixes cntr :: "('k, 'v) cc4_map" and el_dtor :: "'d option"
  assumes inv: "rh_inv hash cntr" and cm: "cmpr_ok cmpr" and ml: "max_load_ok max_load"
    and bound: "of_nat (hdr_size cntr + 1) \<le> 2 ^ 31 * max_load"
  shows "\<exists>evs r. cc4_map_insert cntr e k replace el_size layout hash cmpr max_load el_dtor
                   key_dtor realloc' = Some (evs, r) \<and>
                 hdr_cap (new_cntr r) \<le> 2 ^ 31 \<and>
                 (other_ptr r = 0 \<longrightarrow> (\<exists>bytes. realloc' bytes = None))"
proof -
  have ml0: "0 < max_load" "max_load \<le> 1" using ml by (simp_all add: max_load_ok_def)
  have capb: "hdr_cap cntr \<le> 2 ^ 31"
    using shape_ok_pos(2)[OF rh_invD(1)[OF inv]] by (cases "hdr_cap cntr = 0") simp_all
  have "hdr_size cntr + 1 < 2 ^ 64"
    using rh_inv_size_le[OF inv] rh_inv_cap_le[OF inv] by simp
  then have st: "size_t (hdr_size cntr + 1) = hdr_size cntr + 1" by (simp add: size_t_def)
  show ?thesis
  proof (cases "of_nat (hdr_size cntr + 1) > of_nat (hdr_cap cntr) * max_load")
    case grow: True
    have "(2::rat) ^ 31 * max_load \<le> 2 ^ 63 * max_load"
      using ml0(1) by (intro mult_right_mono) simp_all
    with bound have b63: "of_nat (hdr_size cntr + 1) \<le> 2 ^ 63 * max_load" by simp
    from cc4_map_min_cap_for_n_els_terminates[OF ml0(1) b63] obtain c where
      c: "cc4_map_min_cap_for_n_els (hdr_size cntr + 1) max_load = Some c" by blast
    from min_cap_le_bound[OF c _ bound] have cj: "\<exists>j\<le>31. c = 2 ^ j" by simp
    then obtain j where j: "j \<le> 31" "c = 2 ^ j" by blast
    have "(2::nat) ^ j \<le> 2 ^ 31" using j(1) by (intro power_increasing) simp_all
    then have c31: "c \<le> 2 ^ 31" using j(2) by simp
    from cc4_map_min_cap_for_n_els_result[OF c]
    have ld: "of_nat (hdr_size cntr + 1) \<le> of_nat c * max_load" by auto
    with grow have "of_nat (hdr_cap cntr) * max_load < of_nat c * max_load" by simp
    with ml0(1) have lt: "hdr_cap cntr < c" by simp
    let ?bytes = "size_t (sizeof_map_hdr + CC4_BUCKET_SIZE el_size layout * c)"
    show ?thesis
    proof (cases "realloc' ?bytes")
      case None
      then show ?thesis
        using grow st c lt capb
        by (auto simp: cc4_map_insert_def cc4_map_reserve_def cc4_map_make_rehash_def Let_def
            cc4_make_allocing_fn_result_def cc4_map_size_def cc4_map_cap_def)
    next
      case (Some a)
      obtain p junk where a: "a = (p, junk)" by (cases a)
      have room: "hdr_size cntr \<le> c" using rh_inv_size_le[OF inv] lt by simp
      have al: "realloc' ?bytes = Some (p, junk)" using Some a by simp
      from cc4_map_make_rehash_ok[where realloc' = realloc' and el_size = el_size
          and layout = layout and cap = c and p = p and junk = junk, OF inv cj room al]
      obtain new where
        new: "cc4_map_make_rehash cntr c el_size layout hash realloc' =
                 Some ([Realloc ?bytes :: 'd event], Some new)"
          "rh_inv hash new" "hdr_cap new = c" "hdr_size new = hdr_size cntr"
        by blast
      have "hdr_size new < hdr_cap new"
        using load_room[OF ld ml0(2,1)] new(3,4) by simp
      from cc4_map_insert_raw_spec[OF new(2) cm this, of e k replace el_size layout el_dtor
          key_dtor]
      obtain evs2 cntr' itr where
        ir: "cc4_map_insert_raw new e k replace el_size layout hash cmpr el_dtor key_dtor =
               Some (evs2, cntr', itr)" "itr \<noteq> 0" "hdr_cap cntr' = hdr_cap new"
        by blast
      show ?thesis
        using grow st c lt new(1) ir new(3) c31
        by (simp add: cc4_map_insert_def cc4_map_reserve_def
            cc4_make_allocing_fn_result_def cc4_map_size_def cc4_map_cap_def
            cc4_dummy_true_ptr_def)
    qed
  next
    case nogrow: False
    then have ld: "of_nat (hdr_size cntr + 1) \<le> of_nat (hdr_cap cntr) * max_load" by simp
    have room: "hdr_size cntr < hdr_cap cntr" using load_room[OF ld ml0(2,1)] .
    from cc4_map_insert_raw_spec[OF inv cm room, of e k replace el_size layout el_dtor
        key_dtor]
    obtain evs2 cntr' itr where
      ir: "cc4_map_insert_raw cntr e k replace el_size layout hash cmpr el_dtor key_dtor =
             Some (evs2, cntr', itr)" "itr \<noteq> 0" "hdr_cap cntr' = hdr_cap cntr"
      by blast
    show ?thesis
      using nogrow st ir capb
      by (simp add: cc4_map_insert_def cc4_make_allocing_fn_result_def cc4_map_size_def
          cc4_map_cap_def)
  qed
qed

lemma reachable_rh_inv:
  assumes cm: "cmpr_ok cmpr" and ml: "max_load_ok max_load"
    and r: "reachable hash cmpr max_load el_size layout el_dtor key_dtor cntr"
  shows "rh_inv hash cntr"
  using r
proof (induction rule: reachable.induct)
  case init
  show ?case by (rule rh_inv_placeholder)
next
  case (insert cntr el key replace realloc' evs r)
  from cc4_map_insert_inv(1)[OF insert.IH cm ml insert.hyps(2) insert.hyps(3)]
  show ?case .
next
  case (erase cntr key evs cntr' p)
  from cc4_map_erase_inv[OF erase.IH cm erase.hyps(2)] show ?case .
next
  case (reserve cntr n realloc' evs r)
  from cc4_map_reserve_inv(1)[OF reserve.IH ml reserve.hyps(2) reserve.hyps(3)]
  show ?case .
next
  case (shrink cntr realloc' evs r)
  from cc4_map_shrink_inv(1)[OF shrink.IH ml shrink.hyps(2) shrink.hyps(3)]
  show ?case .
qed

lemma probe_slot_pow2:
  assumes "j \<le> 31"
  shows "probe_slot (2 ^ j) h m = (h + m) mod 2 ^ j"
proof (induction m)
  case 0
  show ?case using home_bucket_pow2[of j h] assms by (simp add: probe_slot_def)
next
  case (Suc m)
  have "(h + m) mod 2 ^ j < (2::nat) ^ j" by simp
  have "probe_slot (2 ^ j) h (Suc m) = next_bucket (2 ^ j) (probe_slot (2 ^ j) h m)"
    by (simp add: probe_slot_def)
  also have "\<dots> = ((h + m) mod 2 ^ j + 1) mod 2 ^ j"
    unfolding Suc.IH using next_bucket_pow2[of j "(h + m) mod 2 ^ j"] assms by simp
  also have "\<dots> = (h + Suc m) mod 2 ^ j" by (simp add: mod_Suc_eq)
  finally show ?case .
qed

lemma probe_path_ge:
  fixes cntr :: "('k, 'v) cc4_map"
  assumes inv: "rh_inv hash cntr"
    and x: "x < hdr_cap cntr" "pl cntr x \<noteq> 0"
    and m: "m < pl cntr x"
  shows "m + 1 \<le> pl cntr ((hash (bkt_key (buckets cntr ! x)) + m) mod hdr_cap cntr)"
proof -
  define n where "n = hdr_cap cntr"
  define k where "k = bkt_key (buckets cntr ! x)"
  have n_pos: "0 < n" using x(1) by (simp add: n_def)
  have hx: "(hash k + (pl cntr x - 1)) mod n = x"
    using rh_invD(3)[OF inv] x by (auto simp: homes_ok_def n_def k_def)
  have ord: "\<And>y. y < n \<Longrightarrow> pl cntr ((y + 1) mod n) \<le> pl cntr y + 1"
    using rh_invD(4)[OF inv] by (simp add: order_ok_def n_def)
  have "hash k + m + (pl cntr x - Suc m) = hash k + (pl cntr x - 1)"
    using m by simp
  with chain_le[of n "pl cntr" "hash k + m" "pl cntr x - Suc m", OF ord n_pos] hx
  have "pl cntr x \<le> pl cntr ((hash k + m) mod n) + (pl cntr x - Suc m)" by simp
  then show ?thesis using m by (simp add: n_def k_def)
qed

lemma rh_inv_size_card_keys:
  fixes cntr :: "('k, 'v) cc4_map"
  assumes inv: "rh_inv hash cntr"
  shows "hdr_size cntr = card {k. has_key cntr k}"
proof -
  define S where "S = {x. x < hdr_cap cntr \<and> pl cntr x \<noteq> 0}"
  have "inj_on (\<lambda>x. bkt_key (buckets cntr ! x)) S"
    using rh_invD(5)[OF inv] by (auto simp: inj_on_def keys_distinct_def S_def)
  then have "card ((\<lambda>x. bkt_key (buckets cntr ! x)) ` S) = card S" by (rule card_image)
  moreover have "{k. has_key cntr k} = (\<lambda>x. bkt_key (buckets cntr ! x)) ` S"
    by (auto simp: has_key_def S_def)
  moreover have "hdr_size cntr = card S"
    using rh_invD(2)[OF inv] by (simp add: size_ok_def S_def)
  ultimately show ?thesis by simp
qed

section \<open>The claims about insert, get and erase\<close>

lemma cc4_map_reserve_grow:
  fixes evs :: "'d event list"
  assumes "cc4_map_reserve cntr n el_size layout hash max_load realloc' = Some (evs, r)"
    and "other_ptr r \<noteq> 0"
    and "cc4_map_min_cap_for_n_els n max_load = Some c" and "hdr_cap cntr < c"
  shows "hdr_cap (new_cntr r) = c"
proof -
  from assms obtain evs1 new where
    "cc4_map_make_rehash cntr c el_size layout hash realloc' = Some (evs1 :: 'd event list, Some new)"
    "new_cntr r = new"
    by (auto simp: cc4_map_reserve_def cc4_map_cap_def cc4_make_allocing_fn_result_def
        split: option.splits if_splits)
  with cc4_map_make_rehash_frame[OF this(1)] show ?thesis by auto
qed

lemma insert_all_spec:
  fixes cntr :: "('k, 'v) cc4_map" and el_dtor :: "'d option"
  assumes cm: "cmpr_ok cmpr" and ml: "max_load_ok max_load"
  shows "rh_inv hash cntr \<Longrightarrow>
         of_nat (hdr_size cntr + length kvs) \<le> 2 ^ 31 * max_load \<Longrightarrow>
         \<exists>res. insert_all cntr kvs el_size layout hash cmpr max_load el_dtor key_dtor realloc' =
                 Some res \<and>
               (res = None \<longrightarrow> (\<exists>bytes. realloc' bytes = None)) \<and>
               (\<forall>t. res = Some t \<longrightarrow>
                  rh_inv hash t \<and>
                  (\<forall>k v. holds t k v \<longleftrightarrow>
                     (case map_of (rev kvs) k of Some w \<Rightarrow> v = w | None \<Rightarrow> holds cntr k v)))"
proof (induction kvs arbitrary: cntr)
  case Nil
  then show ?case by simp
next
  case (Cons a kvs)
  obtain k e where a: "a = (k, e)" by (cases a)
  have "(of_nat (hdr_size cntr + 1) :: rat) \<le> of_nat (hdr_size cntr + length (a # kvs))"
    by (simp only: of_nat_le_iff) simp
  with Cons.prems(2) have b1: "of_nat (hdr_size cntr + 1) \<le> 2 ^ 31 * max_load" by simp
  from cc4_map_insert_returns[OF Cons.prems(1) cm ml b1, where e = e and k = k
      and replace = True and el_size = el_size and layout = layout and el_dtor = el_dtor
      and key_dtor = key_dtor and realloc' = realloc']
  obtain evs r where
    res: "cc4_map_insert cntr e k True el_size layout hash cmpr max_load el_dtor key_dtor
            realloc' = Some (evs, r)"
    and capb: "hdr_cap (new_cntr r) \<le> 2 ^ 31"
    and fail: "other_ptr r = 0 \<longrightarrow> (\<exists>bytes. realloc' bytes = None)"
    by (elim exE conjE)
  show ?case
  proof (cases "other_ptr r = 0")
    case True
    with res fail show ?thesis by (simp add: a)
  next
    case False
    note ii = cc4_map_insert_inv[OF Cons.prems(1) cm ml res capb]
    note i3 = ii(3)[OF False]
    have sz: "hdr_size (new_cntr r) \<le> hdr_size cntr + 1" using i3 by simp
    then have "(of_nat (hdr_size (new_cntr r) + length kvs) :: rat) \<le>
               of_nat (hdr_size cntr + length (a # kvs))"
      by (simp only: of_nat_le_iff) simp
    with Cons.prems(2) have b2: "of_nat (hdr_size (new_cntr r) + length kvs) \<le> 2 ^ 31 * max_load"
      by simp
    from Cons.IH[OF ii(1) b2] obtain res' where
      r': "insert_all (new_cntr r) kvs el_size layout hash cmpr max_load el_dtor key_dtor
             realloc' = Some res'"
        "res' = None \<longrightarrow> (\<exists>bytes. realloc' bytes = None)"
        "\<forall>t. res' = Some t \<longrightarrow>
                  rh_inv hash t \<and>
                  (\<forall>k' v. holds t k' v \<longleftrightarrow>
                     (case map_of (rev kvs) k' of Some w \<Rightarrow> v = w
                      | None \<Rightarrow> holds (new_cntr r) k' v))"
      by blast
    have hn: "holds (new_cntr r) k' v \<longleftrightarrow> (if k' = k then v = e else holds cntr k' v)"
      for k' v
      using i3 by simp
    have "insert_all cntr (a # kvs) el_size layout hash cmpr max_load el_dtor key_dtor
            realloc' = Some res'"
      using res False r'(1) by (simp add: a)
    moreover have "rh_inv hash t \<and>
          (\<forall>k' v. holds t k' v \<longleftrightarrow>
             (case map_of (rev (a # kvs)) k' of Some w \<Rightarrow> v = w | None \<Rightarrow> holds cntr k' v))"
      if "res' = Some t" for t
      using r'(3) that hn by (auto simp: a map_add_def split: option.splits)
    ultimately show ?thesis using r'(2) by blast
  qed
qed

text \<open>
  C1. Starting from the empty table (the placeholder), \<^verbatim>\<open>cc4_insert\<close> is called for each
  pair of a list \<open>kvs\<close> of keys and elements, in order. Every call returns. The run
  stops early only when the allocator fails. When it runs to the end, in the table \<open>t\<close> it
  leaves, \<open>get(k)\<close> for every inserted key \<open>k\<close> returns the bucket that holds \<open>k\<close> with the
  element of the last pair with key \<open>k\<close>, and \<open>size(t)\<close> is the number of distinct keys of
  the list. (The table's comparison function decides equality of keys, the maximum load
  factor lies in \<open>(0, 1]\<close>, and the list is short enough for a table of \<open>2\<^sup>3\<^sup>1\<close> buckets.)
\<close>

theorem insert_all_get:
  fixes el_dtor :: "'d option" and kvs :: "('k \<times> 'v) list"
  assumes "cmpr_ok cmpr" and "max_load_ok max_load"
    and "of_nat (length kvs) \<le> 2 ^ 31 * max_load"
  shows "\<exists>res. insert_all cc4_map_placeholder kvs el_size layout hash cmpr max_load el_dtor
                 key_dtor realloc' = Some res \<and>
               (res = None \<longrightarrow> (\<exists>bytes. realloc' bytes = None)) \<and>
               (\<forall>t. res = Some t \<longrightarrow>
                  (\<forall>k\<in>fst ` set kvs.
                     get_returns t k (the (map_of (rev kvs) k)) el_size layout hash cmpr) \<and>
                  cc4_map_size t = card (fst ` set kvs))"
proof -
  have b: "of_nat (hdr_size (cc4_map_placeholder :: ('k, 'v) cc4_map) + length kvs)
             \<le> 2 ^ 31 * max_load"
    using assms(3) by simp
  from insert_all_spec[OF assms(1,2) rh_inv_placeholder b, where el_size = el_size
      and layout = layout and el_dtor = el_dtor and key_dtor = key_dtor
      and realloc' = realloc']
  obtain res where
    r: "insert_all cc4_map_placeholder kvs el_size layout hash cmpr max_load el_dtor
          key_dtor realloc' = Some res"
       "res = None \<longrightarrow> (\<exists>bytes. realloc' bytes = None)"
       "\<forall>t. res = Some t \<longrightarrow>
          rh_inv hash t \<and>
          (\<forall>k v. holds t k v \<longleftrightarrow>
             (case map_of (rev kvs) k of Some w \<Rightarrow> v = w
              | None \<Rightarrow> holds (cc4_map_placeholder :: ('k, 'v) cc4_map) k v))"
    by blast
  have "(\<forall>k\<in>fst ` set kvs.
           get_returns t k (the (map_of (rev kvs) k)) el_size layout hash cmpr) \<and>
        cc4_map_size t = card (fst ` set kvs)"
    if t: "res = Some t" for t
  proof -
    from r(3) t have inv: "rh_inv hash t"
      and h: "\<And>k v. holds t k v \<longleftrightarrow>
             (case map_of (rev kvs) k of Some w \<Rightarrow> v = w | None \<Rightarrow> False)"
      by (auto simp: holds_placeholder split: option.splits)
    have dom: "map_of (rev kvs) k \<noteq> None \<longleftrightarrow> k \<in> fst ` set kvs" for k
      by (simp add: map_of_eq_None_iff)
    have g: "get_returns t k (the (map_of (rev kvs) k)) el_size layout hash cmpr"
      if "k \<in> fst ` set kvs" for k
    proof -
      from that dom[of k] obtain w where "map_of (rev kvs) k = Some w" by auto
      then have "holds t k (the (map_of (rev kvs) k))" using h by simp
      then show ?thesis using get_returns_holds[OF inv assms(1)] by simp
    qed
    have "has_key t k \<longleftrightarrow> k \<in> fst ` set kvs" for k
      using dom[of k] h[of k] by (auto simp: has_key_holds split: option.splits)
    then have "{k. has_key t k} = fst ` set kvs" by blast
    with rh_inv_size_card_keys[OF inv] have "cc4_map_size t = card (fst ` set kvs)"
      by (simp add: cc4_map_size_def)
    with g show ?thesis by blast
  qed
  with r(1,2) show ?thesis by blast
qed

theorem insert_all_get_witness:
  "cmpr_ok cc4_cmpr_size_t \<and> max_load_ok (3 / 4) \<and>
   of_nat (length [(3 :: nat, 10 :: nat), (11, 20), (3, 30)]) \<le> 2 ^ 31 * (3 / 4 :: rat) \<and>
   insert_all cc4_map_placeholder [(3, 10), (11, 20), (3, 30)] 4 4 cc4_hash_size_t
       cc4_cmpr_size_t (3 / 4) (None :: string option) None (realloc_at 8192 junk_bucket) =
     Some (Some (two_entry_map\<lparr>buckets := (buckets two_entry_map)
        [3 := \<lparr>bkt_el = 30, bkt_key = 3, bkt_probelen = 1\<rparr>]\<rparr>)) \<and>
   get_returns (two_entry_map\<lparr>buckets := (buckets two_entry_map)
        [3 := \<lparr>bkt_el = 30, bkt_key = 3, bkt_probelen = 1\<rparr>]\<rparr>) 3 30 4 4
     cc4_hash_size_t cc4_cmpr_size_t \<and>
   get_returns (two_entry_map\<lparr>buckets := (buckets two_entry_map)
        [3 := \<lparr>bkt_el = 30, bkt_key = 3, bkt_probelen = 1\<rparr>]\<rparr>) 11 20 4 4
     cc4_hash_size_t cc4_cmpr_size_t \<and>
   cc4_map_size (two_entry_map\<lparr>buckets := (buckets two_entry_map)
        [3 := \<lparr>bkt_el = 30, bkt_key = 3, bkt_probelen = 1\<rparr>]\<rparr>) = 2"
proof -
  have h: "cmpr_ok cc4_cmpr_size_t" "max_load_ok (3 / 4)"
    "of_nat (length [(3 :: nat, 10 :: nat), (11, 20), (3, 30)]) \<le> 2 ^ 31 * (3 / 4 :: rat)"
    by (auto simp: cmpr_ok_def max_load_ok_def cc4_cmpr_size_t_def)
  have e: "insert_all cc4_map_placeholder [(3, 10), (11, 20), (3, 30)] 4 4 cc4_hash_size_t
       cc4_cmpr_size_t (3 / 4) (None :: string option) None (realloc_at 8192 junk_bucket) =
     Some (Some (two_entry_map\<lparr>buckets := (buckets two_entry_map)
        [3 := \<lparr>bkt_el = 30, bkt_key = 3, bkt_probelen = 1\<rparr>]\<rparr>))"
    by (simp add: cc4_eval)
  from insert_all_get[OF h, of 4 4 cc4_hash_size_t "None :: string option" None
      "realloc_at 8192 junk_bucket"]
  have "(\<forall>k\<in>fst ` set [(3 :: nat, 10 :: nat), (11, 20), (3, 30)].
           get_returns (two_entry_map\<lparr>buckets := (buckets two_entry_map)
               [3 := \<lparr>bkt_el = 30, bkt_key = 3, bkt_probelen = 1\<rparr>]\<rparr>) k
             (the (map_of (rev [(3, 10), (11, 20), (3, 30)]) k)) 4 4 cc4_hash_size_t
             cc4_cmpr_size_t) \<and>
        cc4_map_size (two_entry_map\<lparr>buckets := (buckets two_entry_map)
               [3 := \<lparr>bkt_el = 30, bkt_key = 3, bkt_probelen = 1\<rparr>]\<rparr>) =
          card (fst ` set [(3 :: nat, 10 :: nat), (11, 20), (3, 30)])"
    unfolding e by simp
  then show ?thesis using h by (simp add: cc4_eval card_insert_if)
qed

lemma one_entry_map_reachable:
  "reachable cc4_hash_size_t cc4_cmpr_size_t (3 / 4) 4 4 (None :: string option) None
     one_entry_map"
proof -
  have "cc4_map_insert cc4_map_placeholder 10 3 True 4 4 cc4_hash_size_t cc4_cmpr_size_t
          (3 / 4) (None :: string option) None (realloc_at 8192 junk_bucket) =
        Some ([Realloc 112],
              cc4_make_allocing_fn_result one_entry_map (cc4_map_el 8192 3 4 4))"
    by (simp add: cc4_eval)
  from reachable.insert[OF reachable.init this] show ?thesis
    by (simp add: cc4_make_allocing_fn_result_def one_entry_map_def)
qed

lemma two_entry_map_reachable:
  "reachable cc4_hash_size_t cc4_cmpr_size_t (3 / 4) 4 4 (None :: string option) None
     two_entry_map"
proof -
  have "cc4_map_insert one_entry_map 20 11 True 4 4 cc4_hash_size_t cc4_cmpr_size_t (3 / 4)
          (None :: string option) None realloc_fails =
        Some ([], cc4_make_allocing_fn_result two_entry_map (cc4_map_el 8192 4 4 4))"
    by (simp add: cc4_eval)
  from reachable.insert[OF one_entry_map_reachable this] show ?thesis
    by (simp add: cc4_make_allocing_fn_result_def two_entry_map_def)
qed

lemma two_entry_map_has_key: "has_key two_entry_map 3"
  unfolding has_key_def by (intro exI[of _ 3]) (simp add: cc4_eval)

lemma cmpr_ok_size_t: "cmpr_ok cc4_cmpr_size_t"
  by (auto simp: cmpr_ok_def cc4_cmpr_size_t_def)

text \<open>
  C2. In a table \<open>T\<close> that a program can build, let key \<open>k\<close> be present. Then
  \<open>erase(k)\<close> returns \<^verbatim>\<open>cc4_dummy_true_ptr\<close> (true) and leaves a table \<open>T'\<close> in which
  \<open>get(k)\<close> returns the null pointer (not found), whose size is the size of \<open>T\<close> minus one,
  and in which \<open>get\<close> still returns, for every other key that \<open>get\<close> found in \<open>T\<close>, a
  bucket holding that key with the same element.
\<close>

theorem cc4_map_erase_get:
  fixes T :: "('k, 'v) cc4_map" and el_dtor :: "'d option"
  assumes "cmpr_ok cmpr" and "max_load_ok max_load"
    and "reachable hash cmpr max_load el_size layout el_dtor key_dtor T"
    and "has_key T k"
  shows "\<exists>evs T'.
           cc4_map_erase T k el_size layout hash cmpr el_dtor key_dtor =
             Some (evs, T', cc4_dummy_true_ptr) \<and>
           cc4_dummy_true_ptr \<noteq> 0 \<and>
           cc4_map_get T' k el_size layout hash cmpr = Some 0 \<and>
           cc4_map_size T' + 1 = cc4_map_size T \<and>
           (\<forall>k' v'. k' \<noteq> k \<longrightarrow> get_returns T k' v' el_size layout hash cmpr \<longrightarrow>
              get_returns T' k' v' el_size layout hash cmpr)"
proof -
  have inv: "rh_inv hash T" by (rule reachable_rh_inv[OF assms(1,2,3)])
  from cc4_map_erase_present[OF inv assms(1,4), of el_size layout el_dtor key_dtor]
  obtain evs T' where
    r: "cc4_map_erase T k el_size layout hash cmpr el_dtor key_dtor =
          Some (evs, T', cc4_dummy_true_ptr)"
       "rh_inv hash T'" "\<forall>k' v'. holds T' k' v' \<longleftrightarrow> holds T k' v' \<and> k' \<noteq> k"
       "hdr_size T' + 1 = hdr_size T"
    by blast
  have "\<not> has_key T' k" using r(3) by (simp add: has_key_holds)
  then have g: "cc4_map_get T' k el_size layout hash cmpr = Some 0"
    by (rule cc4_map_get_absent[OF r(2) assms(1)])
  have "get_returns T' k' v' el_size layout hash cmpr"
    if "k' \<noteq> k" "get_returns T k' v' el_size layout hash cmpr" for k' v'
    using that r(3) get_returns_holds[OF inv assms(1)] get_returns_holds[OF r(2) assms(1)]
    by simp
  with r(1,4) g show ?thesis
    by (auto simp: cc4_map_size_def cc4_dummy_true_ptr_def)
qed

theorem cc4_map_erase_get_witness:
  "cmpr_ok cc4_cmpr_size_t \<and> max_load_ok (3 / 4) \<and>
   reachable cc4_hash_size_t cc4_cmpr_size_t (3 / 4) 4 4 (None :: string option) None
     two_entry_map \<and>
   has_key two_entry_map 3 \<and>
   cc4_map_erase two_entry_map 3 4 4 cc4_hash_size_t cc4_cmpr_size_t
       (None :: string option) None =
     Some ([], \<lparr>hndl = 8192, hdr_size = 1, hdr_cap = 8,
                buckets =
                  map (\<lambda>i. junk_bucket\<lparr>bkt_probelen := 0\<rparr>) [0..<3] @
                  \<lparr>bkt_el = 20, bkt_key = 11, bkt_probelen = 1\<rparr> #
                  \<lparr>bkt_el = 20, bkt_key = 11, bkt_probelen = 0\<rparr> #
                  map (\<lambda>i. junk_bucket\<lparr>bkt_probelen := 0\<rparr>) [5..<8]\<rparr>,
           cc4_dummy_true_ptr) \<and>
   cc4_map_get \<lparr>hndl = 8192, hdr_size = 1, hdr_cap = 8,
                buckets =
                  map (\<lambda>i. junk_bucket\<lparr>bkt_probelen := 0\<rparr>) [0..<3] @
                  \<lparr>bkt_el = 20, bkt_key = 11, bkt_probelen = 1\<rparr> #
                  \<lparr>bkt_el = 20, bkt_key = 11, bkt_probelen = 0\<rparr> #
                  map (\<lambda>i. junk_bucket\<lparr>bkt_probelen := 0\<rparr>) [5..<8]\<rparr>
       3 4 4 cc4_hash_size_t cc4_cmpr_size_t = Some 0 \<and>
   cc4_map_size two_entry_map = 2 \<and>
   cc4_map_get two_entry_map 11 4 4 cc4_hash_size_t cc4_cmpr_size_t =
     Some (cc4_map_el 8192 4 4 4) \<and>
   bkt_el (buckets two_entry_map ! 4) = 20 \<and>
   cc4_map_get \<lparr>hndl = 8192, hdr_size = 1, hdr_cap = 8,
                buckets =
                  map (\<lambda>i. junk_bucket\<lparr>bkt_probelen := 0\<rparr>) [0..<3] @
                  \<lparr>bkt_el = 20, bkt_key = 11, bkt_probelen = 1\<rparr> #
                  \<lparr>bkt_el = 20, bkt_key = 11, bkt_probelen = 0\<rparr> #
                  map (\<lambda>i. junk_bucket\<lparr>bkt_probelen := 0\<rparr>) [5..<8]\<rparr>
       11 4 4 cc4_hash_size_t cc4_cmpr_size_t = Some (cc4_map_el 8192 3 4 4)"
proof -
  have h: "max_load_ok (3 / 4)" by (simp add: max_load_ok_def)
  note t = cc4_map_erase_get[OF cmpr_ok_size_t h two_entry_map_reachable
      two_entry_map_has_key]
  show ?thesis
    using t cmpr_ok_size_t h two_entry_map_reachable two_entry_map_has_key
    by (simp add: cc4_eval)
qed

text \<open>
  C3. In a table that a program can build, every call of insert returns, and a call that
  succeeds leaves \<open>size \<le> cap \<times> max_load\<close>. When \<open>size + 1\<close> exceeds \<open>cap \<times> max_load\<close>
  before the call, insert is reserve for \<open>size + 1\<close> elements followed by the probe walk
  (\<^verbatim>\<open>cc4_map_insert_raw\<close>) in the table that reserve returned, and the new capacity is the
  least of 8, 16, 32, ... that satisfies the bound for \<open>size + 1\<close>. Otherwise the probe
  walk runs in the table itself and the capacity stays. (The bound \<open>size + 1 \<le> 2\<^sup>3\<^sup>1 \<times>
  max_load\<close> keeps the table within \<open>2\<^sup>3\<^sup>1\<close> buckets.)
\<close>

theorem cc4_map_insert_load:
  fixes cntr :: "('k, 'v) cc4_map" and el_dtor :: "'d option"
  assumes "cmpr_ok cmpr" and "max_load_ok max_load"
    and "reachable hash cmpr max_load el_size layout el_dtor key_dtor cntr"
    and "of_nat (cc4_map_size cntr + 1) \<le> 2 ^ 31 * max_load"
  shows "\<exists>evs r.
           cc4_map_insert cntr e k replace el_size layout hash cmpr max_load el_dtor key_dtor
             realloc' = Some (evs, r) \<and>
           (other_ptr r \<noteq> 0 \<longrightarrow>
              of_nat (cc4_map_size (new_cntr r)) \<le> of_nat (cc4_map_cap (new_cntr r)) * max_load \<and>
              (if of_nat (cc4_map_size cntr + 1) > of_nat (cc4_map_cap cntr) * max_load then
                 (\<exists>j. cc4_map_cap (new_cntr r) = 8 * 2 ^ j \<and>
                    of_nat (cc4_map_size cntr + 1) \<le> of_nat (8 * 2 ^ j :: nat) * max_load \<and>
                    (\<forall>i<j. of_nat (8 * 2 ^ i :: nat) * max_load <
                       of_nat (cc4_map_size cntr + 1))) \<and>
                 (\<exists>evs1 r1 evs2.
                    cc4_map_reserve cntr (cc4_map_size cntr + 1) el_size layout hash max_load
                      realloc' = Some (evs1, r1) \<and>
                    cc4_map_insert_raw (new_cntr r1) e k replace el_size layout hash cmpr
                      el_dtor key_dtor = Some (evs2, new_cntr r, other_ptr r) \<and>
                    evs = evs1 @ evs2)
               else
                 cc4_map_cap (new_cntr r) = cc4_map_cap cntr \<and>
                 cc4_map_insert_raw cntr e k replace el_size layout hash cmpr el_dtor
                   key_dtor = Some (evs, new_cntr r, other_ptr r)))"
proof -
  have inv: "rh_inv hash cntr" by (rule reachable_rh_inv[OF assms(1,2,3)])
  have ml0: "0 < max_load" using assms(2) by (simp add: max_load_ok_def)
  have b: "of_nat (hdr_size cntr + 1) \<le> 2 ^ 31 * max_load"
    using assms(4) by (simp add: cc4_map_size_def)
  have "hdr_size cntr + 1 < 2 ^ 64"
    using rh_inv_size_le[OF inv] rh_inv_cap_le[OF inv] by simp
  then have st: "size_t (hdr_size cntr + 1) = hdr_size cntr + 1" by (simp add: size_t_def)
  from cc4_map_insert_returns[OF inv assms(1,2) b, where e = e and k = k
      and replace = replace and el_size = el_size and layout = layout and el_dtor = el_dtor
      and key_dtor = key_dtor and realloc' = realloc']
  obtain evs r where
    res: "cc4_map_insert cntr e k replace el_size layout hash cmpr max_load el_dtor key_dtor
            realloc' = Some (evs, r)"
    and capb: "hdr_cap (new_cntr r) \<le> 2 ^ 31"
    by (elim exE conjE)
  have "of_nat (cc4_map_size (new_cntr r)) \<le> of_nat (cc4_map_cap (new_cntr r)) * max_load \<and>
        (if of_nat (cc4_map_size cntr + 1) > of_nat (cc4_map_cap cntr) * max_load then
           (\<exists>j. cc4_map_cap (new_cntr r) = 8 * 2 ^ j \<and>
              of_nat (cc4_map_size cntr + 1) \<le> of_nat (8 * 2 ^ j :: nat) * max_load \<and>
              (\<forall>i<j. of_nat (8 * 2 ^ i :: nat) * max_load <
                 of_nat (cc4_map_size cntr + 1))) \<and>
           (\<exists>evs1 r1 evs2.
              cc4_map_reserve cntr (cc4_map_size cntr + 1) el_size layout hash max_load
                realloc' = Some (evs1, r1) \<and>
              cc4_map_insert_raw (new_cntr r1) e k replace el_size layout hash cmpr
                el_dtor key_dtor = Some (evs2, new_cntr r, other_ptr r) \<and>
              evs = evs1 @ evs2)
         else
           cc4_map_cap (new_cntr r) = cc4_map_cap cntr \<and>
           cc4_map_insert_raw cntr e k replace el_size layout hash cmpr el_dtor
             key_dtor = Some (evs, new_cntr r, other_ptr r))"
    if nz: "other_ptr r \<noteq> 0"
  proof -
    note i3 = cc4_map_insert_inv(3)[OF inv assms(1,2) res capb nz]
    have load: "of_nat (cc4_map_size (new_cntr r)) \<le>
                of_nat (cc4_map_cap (new_cntr r)) * max_load"
      using i3 by (simp add: cc4_map_size_def cc4_map_cap_def)
    show ?thesis
    proof (cases "of_nat (hdr_size cntr + 1) > of_nat (hdr_cap cntr) * max_load")
      case grow: True
      from res grow st obtain evs1 r1 where
        rs: "cc4_map_reserve cntr (hdr_size cntr + 1) el_size layout hash max_load realloc' =
               Some (evs1 :: 'd event list, r1)"
        by (auto simp: cc4_map_insert_def cc4_map_size_def cc4_map_cap_def
            split: option.splits)
      have nz1: "other_ptr r1 \<noteq> 0"
        using res grow st rs nz
        by (auto simp: cc4_map_insert_def cc4_map_size_def cc4_map_cap_def
            split: if_splits)
      with res grow st rs obtain evs2 cntr' itr where
        ir: "cc4_map_insert_raw (new_cntr r1) e k replace el_size layout hash cmpr el_dtor
               key_dtor = Some (evs2, cntr', itr)"
        and r: "r = cc4_make_allocing_fn_result cntr' itr" and ev: "evs = evs1 @ evs2"
        by (auto simp: cc4_map_insert_def cc4_map_size_def cc4_map_cap_def
            split: option.splits)
      have cap': "hdr_cap cntr' = hdr_cap (new_cntr r1)"
        using insert_raw_loop_frame[OF ir[unfolded cc4_map_insert_raw_def]] by simp
      from rs obtain c where
        c: "cc4_map_min_cap_for_n_els (hdr_size cntr + 1) max_load = Some c"
        by (auto simp: cc4_map_reserve_def split: option.splits)
      from cc4_map_min_cap_for_n_els_result[OF c] obtain j where
        j: "c = 8 * 2 ^ j" "of_nat (hdr_size cntr + 1) \<le> of_nat c * max_load"
           "\<forall>i<j. of_nat (hdr_size cntr + 1) > of_nat (8 * 2 ^ i :: nat) * max_load"
        by auto
      from j(2) grow have "of_nat (hdr_cap cntr) * max_load < of_nat c * max_load" by simp
      with ml0 have lt: "hdr_cap cntr < c" by simp
      have "hdr_cap (new_cntr r1) = c" by (rule cc4_map_reserve_grow[OF rs nz1 c lt])
      with cap' have "hdr_cap (new_cntr r) = 8 * 2 ^ j"
        using j(1) by (simp add: r cc4_make_allocing_fn_result_def)
      moreover have "cc4_map_insert_raw (new_cntr r1) e k replace el_size layout hash cmpr
               el_dtor key_dtor = Some (evs2, new_cntr r, other_ptr r)"
        using ir by (simp add: r cc4_make_allocing_fn_result_def)
      ultimately show ?thesis
        using load grow rs ev j(2,3) unfolding j(1)
        by (auto simp: cc4_map_size_def cc4_map_cap_def)
    next
      case nogrow: False
      from res nogrow st obtain cntr' itr where
        ir: "cc4_map_insert_raw cntr e k replace el_size layout hash cmpr el_dtor
               key_dtor = Some (evs, cntr', itr)"
        and r: "r = cc4_make_allocing_fn_result cntr' itr"
        by (auto simp: cc4_map_insert_def cc4_map_size_def cc4_map_cap_def
            split: option.splits)
      have cap': "hdr_cap cntr' = hdr_cap cntr"
        using insert_raw_loop_frame[OF ir[unfolded cc4_map_insert_raw_def]] by simp
      show ?thesis
        using load nogrow ir cap'
        by (simp add: cc4_map_size_def cc4_map_cap_def r cc4_make_allocing_fn_result_def)
    qed
  qed
  with res show ?thesis by blast
qed

theorem cc4_map_insert_load_witness:
  "cmpr_ok cc4_cmpr_size_t \<and> max_load_ok (3 / 4) \<and>
   reachable cc4_hash_size_t cc4_cmpr_size_t (3 / 4) 4 4 (None :: string option) None
     (cc4_map_placeholder :: (nat, nat) cc4_map) \<and>
   of_nat (cc4_map_size (cc4_map_placeholder :: (nat, nat) cc4_map) + 1)
     \<le> 2 ^ 31 * (3 / 4 :: rat) \<and>
   of_nat (cc4_map_size (cc4_map_placeholder :: (nat, nat) cc4_map) + 1) >
     of_nat (cc4_map_cap (cc4_map_placeholder :: (nat, nat) cc4_map)) * (3 / 4 :: rat) \<and>
   cc4_map_insert cc4_map_placeholder 10 3 True 4 4 cc4_hash_size_t cc4_cmpr_size_t (3 / 4)
       (None :: string option) None (realloc_at 8192 junk_bucket) =
     Some ([Realloc 112], cc4_make_allocing_fn_result one_entry_map (cc4_map_el 8192 3 4 4)) \<and>
   of_nat (cc4_map_size one_entry_map) \<le> of_nat (cc4_map_cap one_entry_map) * (3 / 4 :: rat) \<and>
   cc4_map_cap one_entry_map = 8 * 2 ^ 0 \<and>
   cc4_map_reserve cc4_map_placeholder 1 4 4 cc4_hash_size_t (3 / 4)
       (realloc_at 8192 junk_bucket) =
     Some ([Realloc 112 :: string event],
           cc4_make_allocing_fn_result empty_map_8 cc4_dummy_true_ptr) \<and>
   cc4_map_insert_raw empty_map_8 10 3 True 4 4 cc4_hash_size_t cc4_cmpr_size_t
       (None :: string option) None =
     Some ([], one_entry_map, cc4_map_el 8192 3 4 4) \<and>
   reachable cc4_hash_size_t cc4_cmpr_size_t (3 / 4) 4 4 (None :: string option) None
     one_entry_map \<and>
   of_nat (cc4_map_size one_entry_map + 1) \<le> 2 ^ 31 * (3 / 4 :: rat) \<and>
   of_nat (cc4_map_size one_entry_map + 1) \<le> of_nat (cc4_map_cap one_entry_map) * (3 / 4 :: rat) \<and>
   cc4_map_insert one_entry_map 20 11 True 4 4 cc4_hash_size_t cc4_cmpr_size_t (3 / 4)
       (None :: string option) None realloc_fails =
     Some ([], cc4_make_allocing_fn_result two_entry_map (cc4_map_el 8192 4 4 4)) \<and>
   of_nat (cc4_map_size two_entry_map) \<le> of_nat (cc4_map_cap two_entry_map) * (3 / 4 :: rat) \<and>
   cc4_map_cap two_entry_map = cc4_map_cap one_entry_map \<and>
   cc4_map_insert_raw one_entry_map 20 11 True 4 4 cc4_hash_size_t cc4_cmpr_size_t
       (None :: string option) None =
     Some ([], two_entry_map, cc4_map_el 8192 4 4 4)"
proof -
  have h: "max_load_ok (3 / 4)" by (simp add: max_load_ok_def)
  have b0: "of_nat (cc4_map_size (cc4_map_placeholder :: (nat, nat) cc4_map) + 1)
              \<le> 2 ^ 31 * (3 / 4 :: rat)"
    by (simp add: cc4_eval)
  have b1: "of_nat (cc4_map_size one_entry_map + 1) \<le> 2 ^ 31 * (3 / 4 :: rat)"
    by (simp add: cc4_eval)
  note t0 = cc4_map_insert_load[OF cmpr_ok_size_t h reachable.init b0, where e = 10 and k = 3
      and replace = True and realloc' = "realloc_at 8192 junk_bucket"]
  note t1 = cc4_map_insert_load[OF cmpr_ok_size_t h one_entry_map_reachable b1,
      where e = 20 and k = 11 and replace = True and realloc' = realloc_fails]
  show ?thesis
    using t0 t1 cmpr_ok_size_t h reachable.init[of cc4_hash_size_t cc4_cmpr_size_t "3 / 4" 4 4
        "None :: string option" None, where ?'v = nat] one_entry_map_reachable
    by (simp add: cc4_eval)
qed

text \<open>
  C4. Every table that a program can build by insert, erase, reserve and shrink keeps the
  Robin Hood order. Take an occupied bucket \<open>x\<close>, with key \<open>k\<close> and stored probe length
  \<open>p\<close>. A search for \<open>k\<close> starts at the home bucket of \<open>k\<close> with its counter at 1 and
  adds 1 to the counter at each step; it reaches \<open>x\<close> when the counter is \<open>p\<close>, and at
  every bucket it looks at up to there the stored probe length is at least the counter,
  so it does not stop before. \<open>get(k)\<close> returns the element of bucket \<open>x\<close>, and \<open>get\<close> of
  a key that no occupied bucket holds returns the null pointer.
\<close>

theorem reachable_probe_order:
  fixes T :: "('k, 'v) cc4_map" and el_dtor :: "'d option"
  assumes "cmpr_ok cmpr" and "max_load_ok max_load"
    and "reachable hash cmpr max_load el_size layout el_dtor key_dtor T"
  shows "(\<forall>x<cc4_map_cap T. pl T x \<noteq> 0 \<longrightarrow>
            probe_slot (cc4_map_cap T) (hash (bkt_key (buckets T ! x))) (pl T x - 1) = x \<and>
            (\<forall>m<pl T x.
               m + 1 \<le> pl T (probe_slot (cc4_map_cap T) (hash (bkt_key (buckets T ! x))) m)) \<and>
            cc4_map_get T (bkt_key (buckets T ! x)) el_size layout hash cmpr =
              Some (cc4_map_el (hndl T) x el_size layout)) \<and>
         (\<forall>k. \<not> has_key T k \<longrightarrow> cc4_map_get T k el_size layout hash cmpr = Some 0)"
proof -
  have inv: "rh_inv hash T" by (rule reachable_rh_inv[OF assms])
  have occ: "probe_slot (hdr_cap T) (hash (bkt_key (buckets T ! x))) (pl T x - 1) = x \<and>
        (\<forall>m<pl T x.
           m + 1 \<le> pl T (probe_slot (hdr_cap T) (hash (bkt_key (buckets T ! x))) m)) \<and>
        cc4_map_get T (bkt_key (buckets T ! x)) el_size layout hash cmpr =
          Some (cc4_map_el (hndl T) x el_size layout)"
    if x: "x < hdr_cap T" "pl T x \<noteq> 0" for x
  proof -
    from rh_invD(1)[OF inv] x(1) obtain j where j: "j \<le> 31" "hdr_cap T = 2 ^ j"
      by (auto simp: shape_ok_def)
    have ps: "probe_slot (hdr_cap T) h m = (h + m) mod hdr_cap T" for h m
      unfolding j(2) by (rule probe_slot_pow2[OF j(1)])
    have "(hash (bkt_key (buckets T ! x)) + (pl T x - 1)) mod hdr_cap T = x"
      using rh_invD(3)[OF inv] x by (auto simp: homes_ok_def)
    moreover have "m + 1 \<le> pl T ((hash (bkt_key (buckets T ! x)) + m) mod hdr_cap T)"
      if "m < pl T x" for m
      by (rule probe_path_ge[OF inv x that])
    moreover have "cc4_map_get T (bkt_key (buckets T ! x)) el_size layout hash cmpr =
          Some (cc4_map_el (hndl T) x el_size layout)"
      by (rule cc4_map_get_found[OF inv assms(1) x refl])
    ultimately show ?thesis by (simp add: ps)
  qed
  have "cc4_map_get T k el_size layout hash cmpr = Some 0" if "\<not> has_key T k" for k
    by (rule cc4_map_get_absent[OF inv assms(1) that])
  with occ show ?thesis by (simp add: cc4_map_cap_def)
qed

lemma has_key_set:
  assumes "length (buckets cntr) = hdr_cap cntr"
  shows "has_key cntr k \<longleftrightarrow>
         (\<exists>b\<in>set (buckets cntr). bkt_probelen b \<noteq> 0 \<and> bkt_key b = k)"
proof
  assume "has_key cntr k"
  then obtain x where "x < hdr_cap cntr" "pl cntr x \<noteq> 0" "bkt_key (buckets cntr ! x) = k"
    by (auto simp: has_key_def)
  moreover from this(1) assms have "buckets cntr ! x \<in> set (buckets cntr)" by simp
  ultimately show "\<exists>b\<in>set (buckets cntr). bkt_probelen b \<noteq> 0 \<and> bkt_key b = k"
    by blast
next
  assume "\<exists>b\<in>set (buckets cntr). bkt_probelen b \<noteq> 0 \<and> bkt_key b = k"
  then show "has_key cntr k"
    using assms by (auto simp: has_key_def in_set_conv_nth)
qed

lemma two_entry_map_no_key: "\<not> has_key two_entry_map 19"
  by (subst has_key_set) (simp_all add: cc4_eval)

theorem reachable_probe_order_witness:
  "cmpr_ok cc4_cmpr_size_t \<and> max_load_ok (3 / 4) \<and>
   reachable cc4_hash_size_t cc4_cmpr_size_t (3 / 4) 4 4 (None :: string option) None
     two_entry_map \<and>
   4 < cc4_map_cap two_entry_map \<and> pl two_entry_map 4 = 2 \<and>
   bkt_key (buckets two_entry_map ! 4) = 11 \<and>
   probe_slot (cc4_map_cap two_entry_map) (cc4_hash_size_t 11) 0 = 3 \<and>
   pl two_entry_map 3 = 1 \<and>
   probe_slot (cc4_map_cap two_entry_map) (cc4_hash_size_t 11) 1 = 4 \<and>
   cc4_map_get two_entry_map 11 4 4 cc4_hash_size_t cc4_cmpr_size_t =
     Some (cc4_map_el 8192 4 4 4) \<and>
   \<not> has_key two_entry_map 19 \<and>
   cc4_map_get two_entry_map 19 4 4 cc4_hash_size_t cc4_cmpr_size_t = Some 0"
proof -
  have h: "max_load_ok (3 / 4)" by (simp add: max_load_ok_def)
  note t = reachable_probe_order[OF cmpr_ok_size_t h two_entry_map_reachable]
  have c: "4 < cc4_map_cap two_entry_map" "pl two_entry_map 4 \<noteq> 0"
    by (simp_all add: cc4_eval)
  from t[THEN conjunct1, rule_format, OF c]
    t[THEN conjunct2, rule_format, OF two_entry_map_no_key]
  show ?thesis
    using cmpr_ok_size_t h two_entry_map_reachable two_entry_map_no_key
    by (simp add: cc4_eval probe_slot_def)
qed

section \<open>Insertion when the allocator fails\<close>

lemma one_entry_map_reachable_eighth:
  "reachable cc4_hash_size_t cc4_cmpr_size_t (1 / 8) 4 4 (None :: string option) None
     one_entry_map"
proof -
  have "cc4_map_insert cc4_map_placeholder 10 3 True 4 4 cc4_hash_size_t cc4_cmpr_size_t
          (1 / 8) (None :: string option) None (realloc_at 8192 junk_bucket) =
        Some ([Realloc 112],
              cc4_make_allocing_fn_result one_entry_map (cc4_map_el 8192 3 4 4))"
    by (simp add: cc4_eval)
  from reachable.insert[OF reachable.init this] show ?thesis
    by (simp add: cc4_make_allocing_fn_result_def one_entry_map_def)
qed

text \<open>
  C5. Take a table that a program can build, in which \<open>size + 1\<close> exceeds
  \<open>cap \<times> max_load\<close>. Insert then computes the capacity \<open>c\<close> for \<open>size + 1\<close> elements,
  which is larger than the table's, and asks the allocator for a block of \<open>c\<close> buckets
  before it looks at any bucket. If the allocator refuses that one request, the call
  returns the null pointer together with the handle it was given, for every key, present
  or not: the only event is the allocation request, no destructor runs and the table
  (capacity, size and buckets) is the one passed in. (The bound
  \<open>size + 1 \<le> 2\<^sup>6\<^sup>3 \<times> max_load\<close> says that some 64-bit power of two satisfies the load
  factor; without it the doubling loop of \<^verbatim>\<open>cc4_map_min_cap_for_n_els\<close> has no result.)
\<close>

theorem insert_alloc_failure:
  fixes cntr :: "('k, 'v) cc4_map" and el_dtor :: "'d option"
  assumes "cmpr_ok cmpr" and "max_load_ok max_load"
    and "reachable hash cmpr max_load el_size layout el_dtor key_dtor cntr"
    and "of_nat (cc4_map_size cntr + 1) > of_nat (cc4_map_cap cntr) * max_load"
    and "of_nat (cc4_map_size cntr + 1) \<le> 2 ^ 63 * max_load"
  shows "\<exists>c. cc4_map_min_cap_for_n_els (cc4_map_size cntr + 1) max_load = Some c \<and>
             cc4_map_cap cntr < c \<and>
             (realloc' (size_t (sizeof_map_hdr + CC4_BUCKET_SIZE el_size layout * c)) = None \<longrightarrow>
                cc4_map_insert cntr el key replace el_size layout hash cmpr max_load el_dtor
                  key_dtor realloc' =
                  Some ([Realloc (size_t (sizeof_map_hdr + CC4_BUCKET_SIZE el_size layout * c))],
                        cc4_make_allocing_fn_result cntr 0))"
proof -
  have inv: "rh_inv hash cntr" by (rule reachable_rh_inv[OF assms(1,2,3)])
  have ml0: "0 < max_load" using assms(2) by (simp add: max_load_ok_def)
  have "hdr_size cntr + 1 < 2 ^ 64"
    using rh_inv_size_le[OF inv] rh_inv_cap_le[OF inv] by simp
  then have st: "size_t (cc4_map_size cntr + 1) = cc4_map_size cntr + 1"
    by (simp add: size_t_def cc4_map_size_def)
  from cc4_map_min_cap_for_n_els_terminates[OF ml0 assms(5)] obtain c where
    c: "cc4_map_min_cap_for_n_els (cc4_map_size cntr + 1) max_load = Some c" by blast
  from cc4_map_min_cap_for_n_els_result[OF c]
  have "of_nat (cc4_map_size cntr + 1) \<le> of_nat c * max_load" by auto
  with assms(4) have "of_nat (cc4_map_cap cntr) * max_load < of_nat c * max_load" by simp
  with ml0 have lt: "cc4_map_cap cntr < c" by simp
  let ?bytes = "size_t (sizeof_map_hdr + CC4_BUCKET_SIZE el_size layout * c)"
  have grow: "of_nat (size_t (cc4_map_size cntr + 1)) > of_nat (cc4_map_cap cntr) * max_load"
    unfolding st using assms(4) .
  have c': "cc4_map_min_cap_for_n_els (size_t (cc4_map_size cntr + 1)) max_load = Some c"
    unfolding st using c .
  have "cc4_map_insert cntr el key replace el_size layout hash cmpr max_load el_dtor
          key_dtor realloc' =
        Some ([Realloc ?bytes], cc4_make_allocing_fn_result cntr 0)"
    if fail: "realloc' ?bytes = None"
  proof -
    have mr: "cc4_map_make_rehash cntr c el_size layout hash realloc' =
                Some ([Realloc ?bytes :: 'd event], None)"
      using fail by (simp add: cc4_map_make_rehash_def Let_def)
    have nle: "\<not> c \<le> cc4_map_cap cntr" using lt by simp
    have rs: "cc4_map_reserve cntr (size_t (cc4_map_size cntr + 1)) el_size layout hash
                max_load realloc' =
              Some ([Realloc ?bytes :: 'd event], cc4_make_allocing_fn_result cntr 0)"
      unfolding cc4_map_reserve_def c' using nle mr by simp
    have o: "other_ptr (cc4_make_allocing_fn_result cntr 0) = 0"
      by (simp add: cc4_make_allocing_fn_result_def)
    show ?thesis
      unfolding cc4_map_insert_def rs using grow o by simp
  qed
  then show ?thesis using c lt by (intro exI[of _ c] conjI impI)
qed

theorem insert_alloc_failure_witness:
  "cmpr_ok cc4_cmpr_size_t \<and> max_load_ok (1 / 8) \<and>
   reachable cc4_hash_size_t cc4_cmpr_size_t (1 / 8) 4 4 (None :: string option) None
     one_entry_map \<and>
   of_nat (cc4_map_size one_entry_map + 1) >
     of_nat (cc4_map_cap one_entry_map) * (1 / 8 :: rat) \<and>
   of_nat (cc4_map_size one_entry_map + 1) \<le> 2 ^ 63 * (1 / 8 :: rat) \<and>
   cc4_map_min_cap_for_n_els (cc4_map_size one_entry_map + 1) (1 / 8) = Some 16 \<and>
   cc4_map_cap one_entry_map < 16 \<and>
   size_t (sizeof_map_hdr + CC4_BUCKET_SIZE 4 4 * 16) = 208 \<and>
   cc4_map_get one_entry_map 3 4 4 cc4_hash_size_t cc4_cmpr_size_t =
     Some (cc4_map_el 8192 3 4 4) \<and>
   cc4_map_insert one_entry_map 99 3 True 4 4 cc4_hash_size_t cc4_cmpr_size_t (1 / 8)
       (None :: string option) None
       (\<lambda>n. if n = 208 then None else Some (12288, \<lambda>i. junk_bucket)) =
     Some ([Realloc 208], cc4_make_allocing_fn_result one_entry_map 0) \<and>
   new_cntr (cc4_make_allocing_fn_result one_entry_map 0) = one_entry_map \<and>
   other_ptr (cc4_make_allocing_fn_result one_entry_map 0) = 0"
proof -
  have h: "max_load_ok (1 / 8)" by (simp add: max_load_ok_def)
  have a: "of_nat (cc4_map_size one_entry_map + 1) >
             of_nat (cc4_map_cap one_entry_map) * (1 / 8 :: rat)"
    "of_nat (cc4_map_size one_entry_map + 1) \<le> 2 ^ 63 * (1 / 8 :: rat)"
    by (simp_all add: cc4_eval)
  note t = insert_alloc_failure[OF cmpr_ok_size_t h one_entry_map_reachable_eighth a,
      where el = 99 and key = 3 and replace = True
        and realloc' = "\<lambda>n. if n = 208 then None else Some (12288, \<lambda>i. junk_bucket)"]
  have e: "cc4_map_min_cap_for_n_els (cc4_map_size one_entry_map + 1) (1 / 8) = Some 16"
    "cc4_map_cap one_entry_map < 16"
    "size_t (sizeof_map_hdr + CC4_BUCKET_SIZE 4 4 * 16) = 208"
    "cc4_map_get one_entry_map 3 4 4 cc4_hash_size_t cc4_cmpr_size_t =
       Some (cc4_map_el 8192 3 4 4)"
    "new_cntr (cc4_make_allocing_fn_result one_entry_map 0) = one_entry_map"
    "other_ptr (cc4_make_allocing_fn_result one_entry_map 0) = 0"
    by (simp_all add: cc4_eval)
  from t e(1,3) have "cc4_map_insert one_entry_map 99 3 True 4 4 cc4_hash_size_t
       cc4_cmpr_size_t (1 / 8) (None :: string option) None
       (\<lambda>n. if n = 208 then None else Some (12288, \<lambda>i. junk_bucket)) =
     Some ([Realloc 208], cc4_make_allocing_fn_result one_entry_map 0)"
    by auto
  with cmpr_ok_size_t h one_entry_map_reachable_eighth a e show ?thesis by blast
qed

end
